theory Spec2Isabelle
  imports Main
begin

section \<open>JavaScript values, errors and the hook context\<close>

text \<open>
  Values as the hook library sees them. A mutable array is a reference into a heap of
  arrays (two references to the same array alias each other); the array that the
  \<open>arguments\<close> getter of \<open>withParams\<close> returns is freshly built and frozen on every read,
  so it is carried as the value \<open>Frozen\<close>. Objects and functions are opaque references.
\<close>

datatype jsval =
    Undefined
  | Null
  | VBool bool
  | VNum int
  | VStr string
  | ArrRef nat
  | Frozen "jsval list"
  | ObjRef nat
  | FunRef nat

datatype error =
    TypeError string
  | RangeError string
  | Error string

type_synonym heap = "nat \<Rightarrow> jsval list option"

text \<open>The truthiness test of \<open>if (self)\<close> and of \<open>target && target[HOOKS]\<close>.\<close>

fun truthy :: "jsval \<Rightarrow> bool" where
  "truthy Undefined = False"
| "truthy Null = False"
| "truthy (VBool b) = b"
| "truthy (VNum n) = (n \<noteq> 0)"
| "truthy (VStr s) = (s \<noteq> [])"
| "truthy (ArrRef r) = True"
| "truthy (Frozen xs) = True"
| "truthy (ObjRef r) = True"
| "truthy (FunRef r) = True"

text \<open>\<open>args[index]\<close>: reading past the end of an array gives \<open>undefined\<close>.\<close>

definition index_arr :: "heap \<Rightarrow> nat \<Rightarrow> nat \<Rightarrow> jsval" where
  "index_arr h r i =
     (case h r of
        None \<Rightarrow> Undefined
      | Some xs \<Rightarrow> if i < length xs then xs ! i else Undefined)"

text \<open>
  \<open>class HookContext\<close>: an attribute bag. \<open>own\<close> holds the own data properties (created by
  assignment or by \<open>Object.assign\<close> in the constructor, hence writable and configurable).
  \<open>getter\<close> is the own accessor property \<open>arguments\<close> once \<open>Object.defineProperty\<close> has
  installed it: the parameter names its getter closes over, and whether the property is
  configurable. \<open>inherited\<close> holds the writable data properties found along the prototype
  chain (\<open>constructor\<close>, \<open>toString\<close>, ...). The accessor \<open>__proto__\<close> of
  \<open>Object.prototype\<close> is not part of the model, nor are contexts that a caller has
  frozen or given accessors of their own.
\<close>

record hook_context =
  own :: "string \<Rightarrow> jsval option"
  getter :: "(string list \<times> bool) option"
  inherited :: "string \<Rightarrow> jsval option"

text \<open>\<open>new HookContext(data)\<close>: \<open>Object.assign(this, data)\<close> on a fresh object.\<close>

definition HookContext :: "(string \<Rightarrow> jsval option) \<Rightarrow> (string \<Rightarrow> jsval option) \<Rightarrow> hook_context" where
  "HookContext proto data = \<lparr> own = data, getter = None, inherited = proto \<rparr>"

text \<open>Reading a data property: the own one, else the inherited one, else \<open>undefined\<close>.\<close>

definition lookup_data :: "hook_context \<Rightarrow> string \<Rightarrow> jsval" where
  "lookup_data c name =
     (case own c name of
        Some v \<Rightarrow> v
      | None \<Rightarrow> (case inherited c name of Some v \<Rightarrow> v | None \<Rightarrow> Undefined))"

text \<open>
  \<open>context[name]\<close>. When \<open>arguments\<close> is the accessor, its getter runs
  \<open>Object.freeze(params.map(name => this[name]))\<close>; a parameter that is itself called
  \<open>arguments\<close> makes the getter call itself without end, which JavaScript reports as a
  \<open>RangeError\<close>.
\<close>

definition get_prop :: "hook_context \<Rightarrow> string \<Rightarrow> error + jsval" where
  "get_prop c name =
     (case getter c of
        Some (params, conf) \<Rightarrow>
          if name = ''arguments'' then
            (if ''arguments'' \<in> set params
             then Inl (RangeError ''Maximum call stack size exceeded'')
             else Inr (Frozen (map (lookup_data c) params)))
          else Inr (lookup_data c name)
      | None \<Rightarrow> Inr (lookup_data c name))"

text \<open>
  \<open>context[name] = v\<close>. The accessor \<open>arguments\<close> has no setter: the assignment throws a
  \<open>TypeError\<close> in strict code and does nothing in sloppy code. Every other assignment
  creates or overwrites an own data property. The context is mutated in place, so the
  context after the statement is returned whether or not it threw.
\<close>

definition put_prop :: "bool \<Rightarrow> hook_context \<Rightarrow> string \<Rightarrow> jsval \<Rightarrow> error option \<times> hook_context" where
  "put_prop strict c name v =
     (if name = ''arguments'' \<and> getter c \<noteq> None then
        (if strict
         then (Some (TypeError ''Cannot set property arguments which has only a getter''), c)
         else (None, c))
      else (None, c\<lparr> own := (own c)(name \<mapsto> v) \<rparr>))"

text \<open>
  Writing an element of the array a property read returned: a frozen array rejects the
  write (\<open>TypeError\<close> in strict code, nothing in sloppy code); a mutable array is updated in
  the heap, JavaScript padding with \<open>undefined\<close> when the index is past the end.
\<close>

definition array_put :: "bool \<Rightarrow> heap \<Rightarrow> jsval \<Rightarrow> nat \<Rightarrow> jsval \<Rightarrow> error option \<times> heap" where
  "array_put strict h a i v =
     (case a of
        Frozen xs \<Rightarrow>
          (if strict then (Some (TypeError ''Cannot assign to read only property''), h)
           else (None, h))
      | ArrRef r \<Rightarrow>
          (case h r of
             Some xs \<Rightarrow>
               (None, h(r \<mapsto> (if i < length xs then xs[i := v]
                                else xs @ replicate (i - length xs) Undefined @ [v])))
           | None \<Rightarrow> (None, h))
      | Undefined \<Rightarrow> (Some (TypeError ''Cannot set properties of undefined''), h)
      | Null \<Rightarrow> (Some (TypeError ''Cannot set properties of null''), h)
      | ObjRef r \<Rightarrow> (None, h)
      | FunRef r \<Rightarrow> (None, h)
      | _ \<Rightarrow>
          (if strict then (Some (TypeError ''Cannot create property on a primitive''), h)
           else (None, h)))"

text \<open>
  The two ways a caller can try to mutate \<open>context.arguments\<close> directly:
  \<open>context.arguments = v\<close> is \<open>put_prop strict c ''arguments'' v\<close>, and
  \<open>context.arguments[i] = v\<close> reads the property and writes into what it returned.
\<close>

definition set_arguments_element ::
  "bool \<Rightarrow> heap \<Rightarrow> hook_context \<Rightarrow> nat \<Rightarrow> jsval \<Rightarrow> error option \<times> heap" where
  "set_arguments_element strict h c i v =
     (case get_prop c ''arguments'' of
        Inl e \<Rightarrow> (Some e, h)
      | Inr a \<Rightarrow> array_put strict h a i v)"

text \<open>
  \<open>Object.defineProperty(context, 'arguments', { get })\<close>. A fresh property becomes a
  non-configurable accessor; an own data property is turned into an accessor and stays
  configurable; a configurable accessor gets the new getter; a non-configurable accessor
  cannot be given another getter and the call throws.
\<close>

definition define_arguments :: "string list \<Rightarrow> hook_context \<Rightarrow> error option \<times> hook_context" where
  "define_arguments params c =
     (case getter c of
        Some (old, conf) \<Rightarrow>
          if conf then (None, c\<lparr> getter := Some (params, True) \<rparr>)
          else (Some (TypeError ''Cannot redefine property: arguments''), c)
      | None \<Rightarrow>
          (case own c ''arguments'' of
             Some v \<Rightarrow> (None, c\<lparr> own := (own c)(''arguments'' := None),
                                  getter := Some (params, True) \<rparr>)
           | None \<Rightarrow> (None, c\<lparr> getter := Some (params, False) \<rparr>)))"

section \<open>Context updaters\<close>

text \<open>
  \<open>params.forEach((name, index) => { context[name] = args[index]; })\<close>, in the strict code
  of the module; the first assignment that throws ends the loop.
\<close>

fun assign_params :: "heap \<Rightarrow> nat \<Rightarrow> string list \<Rightarrow> nat \<Rightarrow> hook_context \<Rightarrow> error option \<times> hook_context" where
  "assign_params h args [] index c = (None, c)"
| "assign_params h args (name # names) index c =
     (case put_prop True c name (index_arr h args index) of
        (Some e, c') \<Rightarrow> (Some e, c')
      | (None, c') \<Rightarrow> assign_params h args names (Suc index) c')"

text \<open>
  \<open>withParams(...params)\<close> returns the updater \<open>(self, _fn, args, context) => ...\<close>; \<open>args\<close> is
  the reference of the argument array, read through the heap.
\<close>

definition withParams ::
  "string list \<Rightarrow> heap \<Rightarrow> jsval \<Rightarrow> jsval \<Rightarrow> nat \<Rightarrow> hook_context \<Rightarrow> error option \<times> hook_context" where
  "withParams params h self fn args c =
     (case assign_params h args params 0 c of
        (Some e, c1) \<Rightarrow> (Some e, c1)
      | (None, c1) \<Rightarrow>
          (case (if length params > 0 then define_arguments params c1
                 else put_prop True c1 ''arguments'' (ArrRef args)) of
             (Some e, c2) \<Rightarrow> (Some e, c2)
           | (None, c2) \<Rightarrow>
               (if truthy self then put_prop True c2 ''self'' self else (None, c2))))"

text \<open>
  \<open>withDefaults(defaults)\<close>. The defaults object is the list of its own enumerable
  properties in \<open>Object.keys\<close> order; \<open>defaults[key]\<close> is the value stored under the key.
\<close>

definition object_keys :: "(string \<times> jsval) list \<Rightarrow> string list" where
  "object_keys obj = map fst obj"

definition object_get :: "(string \<times> jsval) list \<Rightarrow> string \<Rightarrow> jsval" where
  "object_get obj key = (case map_of obj key of Some v \<Rightarrow> v | None \<Rightarrow> Undefined)"

fun defaults_loop :: "(string \<times> jsval) list \<Rightarrow> string list \<Rightarrow> hook_context \<Rightarrow> error option \<times> hook_context" where
  "defaults_loop defaults [] c = (None, c)"
| "defaults_loop defaults (key # keys) c =
     (case get_prop c key of
        Inl e \<Rightarrow> (Some e, c)
      | Inr v \<Rightarrow>
          (if v = Undefined then
             (case put_prop True c key (object_get defaults key) of
                (Some e, c') \<Rightarrow> (Some e, c')
              | (None, c') \<Rightarrow> defaults_loop defaults keys c')
           else defaults_loop defaults keys c))"

definition withDefaults ::
  "(string \<times> jsval) list \<Rightarrow> jsval \<Rightarrow> jsval \<Rightarrow> nat \<Rightarrow> hook_context \<Rightarrow> error option \<times> hook_context" where
  "withDefaults defaults self fn args c = defaults_loop defaults (object_keys defaults) c"

text \<open>\<open>withProps(props)\<close>: \<open>Object.assign(context, props)\<close>, one assignment per key.\<close>

fun assign_all :: "(string \<times> jsval) list \<Rightarrow> hook_context \<Rightarrow> error option \<times> hook_context" where
  "assign_all [] c = (None, c)"
| "assign_all ((key, v) # rest) c =
     (case put_prop True c key v of
        (Some e, c') \<Rightarrow> (Some e, c')
      | (None, c') \<Rightarrow> assign_all rest c')"

definition withProps ::
  "(string \<times> jsval) list \<Rightarrow> jsval \<Rightarrow> jsval \<Rightarrow> nat \<Rightarrow> hook_context \<Rightarrow> error option \<times> hook_context" where
  "withProps props self fn args c = assign_all props c"


section \<open>Registration and collection of middleware\<close>

text \<open>
  Middleware lists hang on objects and functions under the symbol \<open>HOOKS\<close>. The store
  keeps, for every value, its own \<open>HOOKS\<close> property (\<open>slots\<close>), its prototype chain, nearest
  prototype first (\<open>protos\<close>), and its own string-keyed properties (\<open>props\<close>). A property
  read walks the prototype chain; an assignment creates or overwrites an own property.
  The middleware themselves are opaque here, of type \<open>'m\<close>.
\<close>

record 'm store =
  slots :: "jsval \<Rightarrow> 'm list option"
  protos :: "jsval \<Rightarrow> jsval list"
  props :: "jsval \<Rightarrow> string \<Rightarrow> jsval option"

fun first_defined :: "('k \<Rightarrow> 'v option) \<Rightarrow> 'k list \<Rightarrow> 'v option" where
  "first_defined f [] = None"
| "first_defined f (x # xs) = (case f x of Some v \<Rightarrow> Some v | None \<Rightarrow> first_defined f xs)"

text \<open>\<open>target[HOOKS]\<close>, found on the target or along its prototype chain.\<close>

definition read_hooks :: "'m store \<Rightarrow> jsval \<Rightarrow> 'm list option" where
  "read_hooks st target = first_defined (slots st) (target # protos st target)"

fun is_object :: "jsval \<Rightarrow> bool" where
  "is_object (ObjRef r) = True"
| "is_object (FunRef r) = True"
| "is_object (ArrRef r) = True"
| "is_object v = False"

text \<open>
  \<open>registerMiddleware(target, middleware)\<close>. Reading a property of \<open>undefined\<close> or \<open>null\<close>
  throws; so does, in strict code, creating a property on a primitive or on a frozen
  array. Otherwise the target's own \<open>HOOKS\<close> becomes \<open>current.concat(middleware)\<close> and the
  target is returned.
\<close>

definition registerMiddleware ::
  "'m store \<Rightarrow> jsval \<Rightarrow> 'm list \<Rightarrow> (error + jsval) \<times> 'm store" where
  "registerMiddleware st target middleware =
     (if target = Undefined \<or> target = Null
      then (Inl (TypeError ''Cannot read properties of undefined or null''), st)
      else
        (let current = (case read_hooks st target of Some ms \<Rightarrow> ms | None \<Rightarrow> [])
         in if is_object target
            then (Inr target, st\<lparr> slots := (slots st)(target \<mapsto> current @ middleware) \<rparr>)
            else (Inl (TypeError ''Cannot create property on a primitive or frozen value''), st)))"

text \<open>\<open>getMiddleware(target)\<close>: \<open>(target && target[HOOKS]) || []\<close>.\<close>

definition getMiddleware :: "'m store \<Rightarrow> jsval \<Rightarrow> 'm list" where
  "getMiddleware st target =
     (if truthy target
      then (case read_hooks st target of Some ms \<Rightarrow> ms | None \<Rightarrow> [])
      else [])"

definition defaultCollectMiddleware :: "'m store \<Rightarrow> jsval \<Rightarrow> jsval \<Rightarrow> nat \<Rightarrow> 'm list" where
  "defaultCollectMiddleware st self fn args = getMiddleware st self @ getMiddleware st fn"

text \<open>A run of registrations, stopping at the first one that throws.\<close>

fun register_all :: "'m store \<Rightarrow> (jsval \<times> 'm list) list \<Rightarrow> (error + unit) \<times> 'm store" where
  "register_all st [] = (Inr (), st)"
| "register_all st ((target, middleware) # rest) =
     (case registerMiddleware st target middleware of
        (Inl e, st') \<Rightarrow> (Inl e, st')
      | (Inr t, st') \<Rightarrow> register_all st' rest)"

text \<open>
  Which objects a registration is visible from. \<open>reaches st u target\<close> holds when the
  read of \<open>u[HOOKS]\<close>, walking from \<open>u\<close> along its prototype chain, comes to \<open>target\<close>
  without having met an object with a \<open>HOOKS\<close> property of its own. \<open>continues_as st u
  owner\<close> says that behind \<open>owner\<close> the prototype chain of \<open>u\<close> goes on as the prototype
  chain of \<open>owner\<close> itself, as every chain of prototypes does.
\<close>

fun reaches_in :: "('k \<Rightarrow> 'v option) \<Rightarrow> 'k list \<Rightarrow> 'k \<Rightarrow> bool" where
  "reaches_in f [] t = False"
| "reaches_in f (x # xs) t = (x = t \<or> (f x = None \<and> reaches_in f xs t))"

definition reaches :: "'m store \<Rightarrow> jsval \<Rightarrow> jsval \<Rightarrow> bool" where
  "reaches st u target = reaches_in (slots st) (u # protos st u) target"

definition continues_as :: "'m store \<Rightarrow> jsval \<Rightarrow> jsval \<Rightarrow> bool" where
  "continues_as st u owner \<longleftrightarrow>
     dropWhile (\<lambda>x. x \<noteq> owner) (u # protos st u) = owner # protos st owner"

section \<open>Hook settings and object hooks\<close>

text \<open>
  A context updater is a function of the receiver, the wrapped function, the argument
  array and the context; it reads the argument array through the heap and returns the
  context it was given, updated. A middleware collector is a function of the receiver,
  the wrapped function and the argument array, reading the store.
\<close>

type_synonym updater =
  "heap \<Rightarrow> jsval \<Rightarrow> jsval \<Rightarrow> nat \<Rightarrow> hook_context \<Rightarrow> error option \<times> hook_context"

type_synonym 'm collector = "'m store \<Rightarrow> jsval \<Rightarrow> jsval \<Rightarrow> nat \<Rightarrow> 'm list"

text \<open>
  The value found under the key \<open>context\<close> of a settings object is a single updater
  function or an array of them. Calling a function runs it; calling an array is the
  JavaScript error \<open>TypeError: ... is not a function\<close>.
\<close>

datatype updater_value =
    UpdaterFn updater
  | UpdaterArray "updater list"

definition call_updater ::
  "string \<Rightarrow> updater_value \<Rightarrow> heap \<Rightarrow> jsval \<Rightarrow> jsval \<Rightarrow> nat \<Rightarrow> hook_context
     \<Rightarrow> error option \<times> hook_context" where
  "call_updater name f h self fn args c =
     (case f of
        UpdaterFn u \<Rightarrow> u h self fn args c
      | UpdaterArray us \<Rightarrow> (Some (TypeError (name @ '' is not a function'')), c))"

text \<open>
  \<open>HookSettings\<close>: an array of middleware, or an object any of whose keys \<open>middleware\<close>,
  \<open>context\<close> and \<open>collect\<close> may be missing. \<open>FunctionHookOptions\<close> is what
  \<open>normalizeOptions\<close> returns, with every key present and \<open>context\<close> an array.
\<close>

record 'm partial_options =
  p_middleware :: "'m list option"
  p_context :: "updater_value option"
  p_collect :: "'m collector option"

datatype 'm hook_settings =
    SettingsArray "'m list"
  | SettingsObject "'m partial_options"

record 'm function_hook_options =
  o_middleware :: "'m list"
  o_context :: "updater list"
  o_collect :: "'m collector"

definition normalizeOptions :: "'m hook_settings \<Rightarrow> 'm function_hook_options" where
  "normalizeOptions opts =
     (let options = (case opts of
                       SettingsArray ms \<Rightarrow>
                         \<lparr> p_middleware = Some ms, p_context = None, p_collect = None \<rparr>
                     | SettingsObject obj \<Rightarrow> obj);
          middleware = (case p_middleware options of Some ms \<Rightarrow> ms | None \<Rightarrow> []);
          context = (case p_context options of Some u \<Rightarrow> u | None \<Rightarrow> UpdaterFn (withParams []));
          collect = (case p_collect options of Some f \<Rightarrow> f | None \<Rightarrow> defaultCollectMiddleware);
          contextUpdaters = (case context of UpdaterArray us \<Rightarrow> us | UpdaterFn u \<Rightarrow> [u])
      in \<lparr> o_middleware = middleware, o_context = contextUpdaters, o_collect = collect \<rparr>)"

text \<open>
  The context updater that \<open>objectHooks\<close> builds for one method:
  \<open>(self, fn, args, context) => { const ctx = originalContext(self, fn, args, context);
  ctx.method = method; return ctx; }\<close>.
\<close>

definition method_context :: "updater_value \<Rightarrow> string \<Rightarrow> updater" where
  "method_context originalContext method h self fn args c =
     (case call_updater ''originalContext'' originalContext h self fn args c of
        (Some e, ctx) \<Rightarrow> (Some e, ctx)
      | (None, ctx) \<Rightarrow> put_prop True ctx ''method'' (VStr method))"

text \<open>\<open>obj[method]\<close> and \<open>result[method] = v\<close> on an object of the store.\<close>

definition read_field :: "'m store \<Rightarrow> jsval \<Rightarrow> string \<Rightarrow> error + jsval" where
  "read_field st obj name =
     (if obj = Undefined \<or> obj = Null
      then Inl (TypeError ''Cannot read properties of undefined or null'')
      else Inr (case first_defined (\<lambda>v. props st v name) (obj # protos st obj) of
                  Some v \<Rightarrow> v
                | None \<Rightarrow> Undefined))"

definition write_field :: "'m store \<Rightarrow> jsval \<Rightarrow> string \<Rightarrow> jsval \<Rightarrow> error option \<times> 'm store" where
  "write_field st obj name v =
     (if obj = Undefined \<or> obj = Null
      then (Some (TypeError ''Cannot set properties of undefined or null''), st)
      else if is_object obj
      then (None, st\<lparr> props := (props st)(obj := (props st obj)(name \<mapsto> v)) \<rparr>)
      else (Some (TypeError ''Cannot create property on a primitive or frozen value''), st))"

fun is_function :: "jsval \<Rightarrow> bool" where
  "is_function (FunRef r) = True"
| "is_function v = False"

definition not_a_function_message :: "string \<Rightarrow> string" where
  "not_a_function_message method =
     ''Can not apply hooks. '' @ [CHR 0x27] @ method @ [CHR 0x27] @ '' is not a function''"

text \<open>
  \<open>objectHooks\<close>. \<open>functionHooks\<close> is not among the sources at hand, so it is the
  parameter \<open>functionHooks\<close>: it maps the original function and the settings object
  \<open>{...options, context}\<close> to the wrapper function. The settings object it receives has
  every key present, with the updater built by \<open>objectHooks\<close> under \<open>context\<close>. The hook
  map is the list of its entries in \<open>Object.keys\<close> order. The reducer mutates the object
  in place, so the store after the call is returned also when it threw.
\<close>

fun hooks_reduce ::
  "(jsval \<Rightarrow> 'm partial_options \<Rightarrow> jsval) \<Rightarrow> (string \<times> 'm hook_settings) list \<Rightarrow> string list
     \<Rightarrow> jsval \<Rightarrow> 'm store \<Rightarrow> (error + jsval) \<times> 'm store" where
  "hooks_reduce functionHooks hooks [] obj st = (Inr obj, st)"
| "hooks_reduce functionHooks hooks (method # rest) obj st =
     (case read_field st obj method of
        Inl e \<Rightarrow> (Inl e, st)
      | Inr val \<Rightarrow>
          (case map_of hooks method of
             None \<Rightarrow> (Inl (TypeError ''Cannot destructure undefined''), st)
           | Some settings \<Rightarrow>
               (let options = normalizeOptions settings;
                    originalContext = UpdaterArray (o_context options);
                    context = method_context originalContext method
                in if \<not> is_function val
                   then (Inl (Error (not_a_function_message method)), st)
                   else
                     (case write_field st obj method
                             (functionHooks val
                                \<lparr> p_middleware = Some (o_middleware options),
                                  p_context = Some (UpdaterFn context),
                                  p_collect = Some (o_collect options) \<rparr>) of
                        (Some e, st') \<Rightarrow> (Inl e, st')
                      | (None, st') \<Rightarrow> hooks_reduce functionHooks hooks rest obj st'))))"

datatype 'm hooks_argument =
    HookArray "'m list"
  | HookMap "(string \<times> 'm hook_settings) list"

definition objectHooks ::
  "(jsval \<Rightarrow> 'm partial_options \<Rightarrow> jsval) \<Rightarrow> 'm store \<Rightarrow> jsval \<Rightarrow> 'm hooks_argument
     \<Rightarrow> (error + jsval) \<times> 'm store" where
  "objectHooks functionHooks st obj0 hooks =
     (case (if is_function obj0 then read_field st obj0 ''prototype'' else Inr obj0) of
        Inl e \<Rightarrow> (Inl e, st)
      | Inr obj \<Rightarrow>
          (case hooks of
             HookArray ms \<Rightarrow> registerMiddleware st obj ms
           | HookMap m \<Rightarrow> hooks_reduce functionHooks m (map fst m) obj st))"

section \<open>The composer\<close>

text \<open>
  Modelled from the spec: the error taxonomy of the composer (\<open>compose.ts\<close> is not among
  the sources at hand). A \<open>ProtocolViolation\<close> is raised by the double-invocation guard
  and is always fatal; a \<open>DomainFailure\<close> is any error thrown by a middleware or by the
  terminal function and can be recovered by a failure-handling scope.
\<close>

datatype failure =
    ProtocolViolation string
  | DomainFailure error

text \<open>
  Modelled from the spec: what an observer of one invocation sees, in order (the
  composer's source is missing): the events the middleware emit, the call of the terminal
  function with the arguments it received, each failure at the point where it is raised,
  and each failure at the point where a failure-handling scope catches it.
\<close>

datatype event =
    MiddlewareEvent string
  | TerminalCall "jsval list"
  | Raised failure
  | Caught failure

text \<open>
  Modelled from the spec: the state of one invocation of a composed callable (the
  composer's source is missing): the one shared context, the events observed so far, and
  the number of times a middleware has suspended on something other than \<open>proceed\<close>.
\<close>

record invocation =
  ctx :: hook_context
  trace :: "event list"
  suspensions :: nat

text \<open>
  Modelled from the spec: a middleware (section 3 of the spec; the \<open>Middleware\<close> type of
  the missing \<open>compose.ts\<close>). Its body is a list of steps: emit an observable event, await
  something unrelated to the chain, assign a context field (\<open>result\<close> among them), throw
  an error, await \<open>proceed\<close>, run steps inside a failure-handling scope with a handler,
  or branch on the context.
\<close>

datatype step =
    Emit string
  | Await
  | SetField string jsval
  | Throw error
  | Proceed
  | Try "step list" "step list"
  | Branch "hook_context \<Rightarrow> bool" "step list" "step list"

text \<open>
  Modelled from the spec: recording one observed event of the invocation (the composer's
  source is missing).
\<close>

definition emit :: "event \<Rightarrow> invocation \<Rightarrow> invocation" where
  "emit e s = s\<lparr> trace := trace s @ [e] \<rparr>"

text \<open>
  Modelled from the spec: one activation of a middleware (the composer's source is
  missing). \<open>next\<close> is the rest of the chain, \<open>called\<close> tells whether this activation has
  called \<open>proceed\<close> already. A second call of \<open>proceed\<close> fails with the
  \<open>ProtocolViolation\<close> \<open>next() called multiple times\<close> and does not run the rest of the
  chain again. A failure ends the steps that follow it; a failure-handling scope recovers
  a \<open>DomainFailure\<close> raised inside it and runs its handler, while a \<open>ProtocolViolation\<close>,
  always fatal, passes through. A failure of the rest of the chain comes back from
  \<open>proceed\<close> as it is.
\<close>

fun run_steps ::
  "(invocation \<Rightarrow> failure option \<times> invocation) \<Rightarrow> step list \<Rightarrow> bool \<Rightarrow> invocation
     \<Rightarrow> failure option \<times> bool \<times> invocation" where
  "run_steps next [] called s = (None, called, s)"
| "run_steps next (Emit e # rest) called s =
     run_steps next rest called (emit (MiddlewareEvent e) s)"
| "run_steps next (Await # rest) called s =
     run_steps next rest called (s\<lparr> suspensions := Suc (suspensions s) \<rparr>)"
| "run_steps next (SetField name v # rest) called s =
     (case put_prop True (ctx s) name v of
        (Some e, c) \<Rightarrow> (Some (DomainFailure e), called, emit (Raised (DomainFailure e)) (s\<lparr> ctx := c \<rparr>))
      | (None, c) \<Rightarrow> run_steps next rest called (s\<lparr> ctx := c \<rparr>))"
| "run_steps next (Throw e # rest) called s =
     (Some (DomainFailure e), called, emit (Raised (DomainFailure e)) s)"
| "run_steps next (Proceed # rest) called s =
     (if called
      then (Some (ProtocolViolation ''next() called multiple times''), called,
            emit (Raised (ProtocolViolation ''next() called multiple times'')) s)
      else (case next s of
              (Some f, s') \<Rightarrow> (Some f, True, s')
            | (None, s') \<Rightarrow> run_steps next rest True s'))"
| "run_steps next (Try body handler # rest) called s =
     (case run_steps next body called s of
        (None, called', s') \<Rightarrow> run_steps next rest called' s'
      | (Some (ProtocolViolation m), called', s') \<Rightarrow> (Some (ProtocolViolation m), called', s')
      | (Some (DomainFailure e), called', s') \<Rightarrow>
          (case run_steps next handler called' (emit (Caught (DomainFailure e)) s') of
             (None, called'', s'') \<Rightarrow> run_steps next rest called'' s''
           | (Some f, called'', s'') \<Rightarrow> (Some f, called'', s'')))"
| "run_steps next (Branch cond yes no # rest) called s =
     (case run_steps next (if cond (ctx s) then yes else no) called s of
        (None, called', s') \<Rightarrow> run_steps next rest called' s'
      | (Some f, called', s') \<Rightarrow> (Some f, called', s'))"

text \<open>
  Modelled from the spec: reading the context's \<open>arguments\<close> for the spread call of the
  terminal function (the composer's source is missing). An array, frozen or not, gives
  its elements and a string its characters; nothing else can be spread.
\<close>

definition spread_arguments :: "heap \<Rightarrow> hook_context \<Rightarrow> error + jsval list" where
  "spread_arguments h c =
     (case get_prop c ''arguments'' of
        Inl e \<Rightarrow> Inl e
      | Inr (ArrRef r) \<Rightarrow>
          (case h r of
             Some xs \<Rightarrow> Inr xs
           | None \<Rightarrow> Inl (TypeError ''arguments is not iterable''))
      | Inr (Frozen xs) \<Rightarrow> Inr xs
      | Inr (VStr cs) \<Rightarrow> Inr (map (\<lambda>ch. VStr [ch]) cs)
      | Inr v \<Rightarrow> Inl (TypeError ''arguments is not iterable''))"

text \<open>
  Modelled from the spec: the terminal invocation at the bottom of the chain (section 4.1;
  the composer's source is missing). The terminal function is called with the context's
  arguments whenever the chain reaches the bottom; its return value is assigned to
  \<open>context.result\<close> unless \<open>result\<close> already holds a value other than \<open>undefined\<close>. A
  failure of the call is a \<open>DomainFailure\<close>.
\<close>

definition terminal_call ::
  "heap \<Rightarrow> (jsval list \<Rightarrow> error + jsval) \<Rightarrow> invocation \<Rightarrow> failure option \<times> invocation" where
  "terminal_call h terminal s =
     (case spread_arguments h (ctx s) of
        Inl e \<Rightarrow> (Some (DomainFailure e), emit (Raised (DomainFailure e)) s)
      | Inr args \<Rightarrow>
          (case terminal args of
             Inl e \<Rightarrow> (Some (DomainFailure e),
                       emit (Raised (DomainFailure e)) (emit (TerminalCall args) s))
           | Inr v \<Rightarrow>
               (if get_prop (ctx s) ''result'' = Inr Undefined
                then (None, emit (TerminalCall args)
                              (s\<lparr> ctx := snd (put_prop True (ctx s) ''result'' v) \<rparr>))
                else (None, emit (TerminalCall args) s))))"

text \<open>
  Modelled from the spec: \<open>compose(middlewareSequence, terminal)\<close> (section 4.1; the
  composer's source is missing). The first middleware is the outermost; the \<open>proceed\<close> of
  each middleware runs the rest of the sequence, and the \<open>proceed\<close> of the last one the
  terminal invocation. The composed callable yields the failure, if any, and the final
  state of the invocation, whose context is the one it was given.
\<close>

fun compose ::
  "step list list \<Rightarrow> heap \<Rightarrow> (jsval list \<Rightarrow> error + jsval) \<Rightarrow> invocation
     \<Rightarrow> failure option \<times> invocation" where
  "compose [] h terminal s = terminal_call h terminal s"
| "compose (m # ms) h terminal s =
     (case run_steps (compose ms h terminal) m False s of
        (r, called, s') \<Rightarrow> (r, s'))"

text \<open>
  Modelled from the spec: the call-compatible mode of the composed callable (the
  composer's source is missing): it rejects with the failure or resolves to
  \<open>context.result\<close>.
\<close>

definition composed_result :: "failure option \<times> invocation \<Rightarrow> failure + jsval" where
  "composed_result out =
     (case fst out of
        Some f \<Rightarrow> Inl f
      | None \<Rightarrow> Inr (lookup_data (ctx (snd out)) ''result''))"

section \<open>Notions used to state the properties of the composer\<close>

text \<open>
  Reading a list of events from left to right with the failure that is on its way up, if
  any: a raised failure is on its way until a handler catches that very failure; nothing
  else is observed while a failure is on its way. The result is \<open>None\<close> for a list that
  breaks these rules, else the failure still on its way at the end.
\<close>

fun settle :: "failure option \<Rightarrow> event list \<Rightarrow> failure option option" where
  "settle p [] = Some p"
| "settle None (Raised f # es) = settle (Some f) es"
| "settle (Some f) (Caught g # es) = (if f = g then settle None es else None)"
| "settle None (Caught g # es) = None"
| "settle None (e # es) = settle None es"
| "settle (Some f) (e # es) = None"

text \<open>The number of calls of the terminal function among some events.\<close>

fun is_terminal_call :: "event \<Rightarrow> bool" where
  "is_terminal_call (TerminalCall args) = True"
| "is_terminal_call e = False"

definition terminal_calls :: "event list \<Rightarrow> nat" where
  "terminal_calls es = length (filter is_terminal_call es)"


text \<open>
  A plain step emits an event, awaits, or assigns a context field other than
  \<open>arguments\<close>: it cannot fail and does not call \<open>proceed\<close>. \<open>run_plain\<close> is the effect
  of a section of plain steps and \<open>section_events\<close> the events it emits.
\<close>

fun plain_step :: "step \<Rightarrow> bool" where
  "plain_step (Emit e) = True"
| "plain_step Await = True"
| "plain_step (SetField name v) = (name \<noteq> ''arguments'')"
| "plain_step st = False"

fun apply_plain :: "step \<Rightarrow> invocation \<Rightarrow> invocation" where
  "apply_plain (Emit e) s = emit (MiddlewareEvent e) s"
| "apply_plain Await s = s\<lparr> suspensions := Suc (suspensions s) \<rparr>"
| "apply_plain (SetField name v) s = s\<lparr> ctx := snd (put_prop True (ctx s) name v) \<rparr>"
| "apply_plain st s = s"

definition run_plain :: "step list \<Rightarrow> invocation \<Rightarrow> invocation" where
  "run_plain steps s = fold apply_plain steps s"

fun section_events :: "step list \<Rightarrow> event list" where
  "section_events [] = []"
| "section_events (Emit e # rest) = MiddlewareEvent e # section_events rest"
| "section_events (st # rest) = section_events rest"

fun keeps_result :: "step \<Rightarrow> bool" where
  "keeps_result (SetField name v) = (name \<noteq> ''result'')"
| "keeps_result st = True"

text \<open>
  An onion middleware runs a before-section, awaits \<open>proceed\<close> and runs an
  after-section. \<open>run_befores\<close> runs the before-sections of a list of them from the
  outermost in, \<open>run_afters\<close> the after-sections from the innermost out.
\<close>

definition onion :: "step list \<times> step list \<Rightarrow> step list" where
  "onion sec = fst sec @ [Proceed] @ snd sec"

definition run_befores :: "(step list \<times> step list) list \<Rightarrow> invocation \<Rightarrow> invocation" where
  "run_befores secs s = fold run_plain (map fst secs) s"

definition run_afters :: "(step list \<times> step list) list \<Rightarrow> invocation \<Rightarrow> invocation" where
  "run_afters secs s = fold run_plain (map snd (rev secs)) s"


text \<open>
  The point at which an activation calls \<open>proceed\<close>. \<open>probe\<close> stands for a rest of the
  chain that fails at once with a failure no scope catches, so that an activation run
  with it ends at its first call of \<open>proceed\<close>: \<open>proceeds_at m s\<close> is the state of the
  invocation at that call, or \<open>None\<close> when the middleware \<open>m\<close>, activated in state \<open>s\<close>,
  ends without having called \<open>proceed\<close>. \<open>activation ms s\<close> follows the calls of
  \<open>proceed\<close> through the middleware \<open>ms\<close> from the outermost in: it is the state in
  which the middleware that comes next in the sequence is activated, or \<open>None\<close> when one
  of \<open>ms\<close> does not call \<open>proceed\<close>.
\<close>

definition probe :: "invocation \<Rightarrow> failure option \<times> invocation" where
  "probe x = (Some (ProtocolViolation ''probe''), x)"

definition proceeds_at :: "step list \<Rightarrow> invocation \<Rightarrow> invocation option" where
  "proceeds_at m s =
     (case run_steps probe m False s of (r, called, x) \<Rightarrow> if called then Some x else None)"

fun activation :: "step list list \<Rightarrow> invocation \<Rightarrow> invocation option" where
  "activation [] s = Some s"
| "activation (m # ms) s =
     (case proceeds_at m s of None \<Rightarrow> None | Some x \<Rightarrow> activation ms x)"

text \<open>\<open>never_assigns field steps\<close>: no step, at any depth, assigns the context field \<open>field\<close>.\<close>

fun never_assigns :: "string \<Rightarrow> step list \<Rightarrow> bool" where
  "never_assigns field [] = True"
| "never_assigns field (SetField name v # rest) = (name \<noteq> field \<and> never_assigns field rest)"
| "never_assigns field (Try body handler # rest) =
     (never_assigns field body \<and> never_assigns field handler \<and> never_assigns field rest)"
| "never_assigns field (Branch cond yes no # rest) =
     (never_assigns field yes \<and> never_assigns field no \<and> never_assigns field rest)"
| "never_assigns field (st # rest) = never_assigns field rest"


section \<open>Concrete inputs used in the examples\<close>

text \<open>
  What an instance of \<open>HookContext\<close> inherits: \<open>constructor\<close> from
  \<open>HookContext.prototype\<close> (the class declares no method) and the methods of
  \<open>Object.prototype\<close>, each a function of its own. A context fresh from
  \<open>new HookContext()\<close> has these and no property of its own. Then a heap holding the
  argument array \<open>[1, 2]\<close>.
\<close>

definition HookContext_prototype :: "string \<Rightarrow> jsval option" where
  "HookContext_prototype =
     map_of [(''constructor'', FunRef 100),
             (''hasOwnProperty'', FunRef 101),
             (''isPrototypeOf'', FunRef 102),
             (''propertyIsEnumerable'', FunRef 103),
             (''toLocaleString'', FunRef 104),
             (''toString'', FunRef 105),
             (''valueOf'', FunRef 106),
             (''__defineGetter__'', FunRef 107),
             (''__defineSetter__'', FunRef 108),
             (''__lookupGetter__'', FunRef 109),
             (''__lookupSetter__'', FunRef 110)]"

definition fresh_context :: hook_context where
  "fresh_context = HookContext HookContext_prototype (\<lambda>name. None)"

definition args_heap :: heap where
  "args_heap = (\<lambda>r. if r = 0 then Some [VNum 1, VNum 2] else None)"

text \<open>
  A store in which nothing is registered yet: an instance \<open>ObjRef 1\<close> whose prototype is
  \<open>ObjRef 2\<close>, and otherwise values without prototypes.
\<close>

definition proto_store :: "string store" where
  "proto_store = \<lparr> slots = (\<lambda>v. None),
                    protos = (\<lambda>v. if v = ObjRef 1 then [ObjRef 2] else []),
                    props = (\<lambda>v name. None) \<rparr>"

text \<open>
  An object \<open>{ sayHi: function, name: 'x' }\<close> in an otherwise empty store, and a stand-in
  for \<open>functionHooks\<close> that returns one fixed wrapper function.
\<close>

definition greeter_store :: "string store" where
  "greeter_store =
     \<lparr> slots = (\<lambda>v. None), protos = (\<lambda>v. []),
       props = (\<lambda>v name. if v = ObjRef 1 \<and> name = ''sayHi'' then Some (FunRef 5)
                           else if v = ObjRef 1 \<and> name = ''name'' then Some (VStr ''x'')
                           else None) \<rparr>"

definition wrapper_stub :: "jsval \<Rightarrow> string partial_options \<Rightarrow> jsval" where
  "wrapper_stub original settings = FunRef 9"

text \<open>
  An invocation about to start on a context whose \<open>arguments\<close> is the array \<open>[1, 2]\<close> of
  \<open>args_heap\<close>, a terminal function that returns, one that throws, and three onion
  middleware A, B and C that await here and there.
\<close>

definition call_context :: hook_context where
  "call_context = \<lparr> own = (\<lambda>name. if name = ''arguments'' then Some (ArrRef 0) else None),
                     getter = None, inherited = (\<lambda>name. None) \<rparr>"

definition start :: invocation where
  "start = \<lparr> ctx = call_context, trace = [], suspensions = 0 \<rparr>"

definition ok_terminal :: "jsval list \<Rightarrow> error + jsval" where
  "ok_terminal args = Inr (VStr ''done'')"

definition failing_terminal :: "jsval list \<Rightarrow> error + jsval" where
  "failing_terminal args = Inl (Error ''boom'')"

definition abc_sections :: "(step list \<times> step list) list" where
  "abc_sections =
     [([Await, Emit ''A-before'', Await], [Await, Emit ''A-after'']),
      ([Emit ''B-before''], [Emit ''B-after'', Await]),
      ([Await, Await, Emit ''C-before''], [Emit ''C-after''])]"

text \<open>
  More middleware: one that overwrites \<open>context.result\<close> after its \<open>proceed\<close> returned, one
  that sets \<open>result\<close> and returns without calling \<open>proceed\<close>, one that catches around its
  \<open>proceed\<close> and sets \<open>result\<close> in the handler, one that catches around its \<open>proceed\<close>
  and only logs, one that calls \<open>proceed\<close> twice, and a single logging onion.
\<close>

definition overwriting_middleware :: "step list" where
  "overwriting_middleware = [Proceed, SetField ''result'' (VNum 9)]"

definition short_circuit_middleware :: "step list" where
  "short_circuit_middleware = [Emit ''B'', SetField ''result'' (VNum 1)]"

definition catching_middleware :: "step list" where
  "catching_middleware = [Try [Proceed] [SetField ''result'' (VNum 1)]]"

definition guarding_middleware :: "step list" where
  "guarding_middleware = [Emit ''A-before'', Try [Proceed] [Emit ''A-recovered''], Emit ''A-after'']"

definition double_proceed_middleware :: "step list" where
  "double_proceed_middleware = [Emit ''A'', Proceed, Proceed, Emit ''never'']"

definition logging_sections :: "(step list \<times> step list) list" where
  "logging_sections = [([Emit ''A-before''], [Await, Emit ''A-after''])]"

section \<open>Properties of the context updaters\<close>

subsection \<open>Reading and writing properties\<close>

lemma get_prop_not_undefined_getter:
  "getter c = Some pc \<Longrightarrow> get_prop c ''arguments'' \<noteq> Inr Undefined"
  by (cases pc) (simp add: get_prop_def)

lemma put_prop_undefined:
  "get_prop c key = Inr Undefined \<Longrightarrow>
   put_prop True c key v = (None, c\<lparr> own := (own c)(key \<mapsto> v) \<rparr>)"
  by (cases "getter c") (auto simp: put_prop_def dest: get_prop_not_undefined_getter)

lemma get_prop_undefined_iff:
  "get_prop c key = Inr Undefined \<longleftrightarrow>
     lookup_data c key = Undefined \<and> \<not> (key = ''arguments'' \<and> getter c \<noteq> None)"
  by (auto simp: get_prop_def split: option.splits prod.splits)

lemma get_prop_error_iff:
  "get_prop c key = Inl e \<longleftrightarrow>
     key = ''arguments'' \<and> e = RangeError ''Maximum call stack size exceeded'' \<and>
     (\<exists>ps conf. getter c = Some (ps, conf) \<and> ''arguments'' \<in> set ps)"
  by (auto simp: get_prop_def split: option.splits prod.splits)

lemma defaults_loop_inv:
  "defaults_loop defaults keys c = (e, c') \<Longrightarrow>
     getter c' = getter c \<and> inherited c' = inherited c \<and>
     (\<forall>key. own c' key \<noteq> own c key \<longrightarrow>
        key \<in> set keys \<and> get_prop c key = Inr Undefined \<and>
        own c' key = Some (object_get defaults key)) \<and>
     (e = None \<longrightarrow> (\<forall>key \<in> set keys. get_prop c key = Inr Undefined \<longrightarrow>
        own c' key = Some (object_get defaults key))) \<and>
     (e \<noteq> None \<longrightarrow> ''arguments'' \<in> set keys \<and>
        (\<exists>ps conf. getter c = Some (ps, conf) \<and> ''arguments'' \<in> set ps))"
proof (induction keys arbitrary: c)
  case Nil
  then show ?case by simp
next
  case (Cons k keys)
  show ?case
  proof (cases "get_prop c k")
    case (Inl err)
    with Cons.prems show ?thesis by (auto simp: get_prop_error_iff)
  next
    case (Inr v)
    show ?thesis
    proof (cases "v = Undefined")
      case False
      with Inr Cons.prems have "defaults_loop defaults keys c = (e, c')" by simp
      from Cons.IH[OF this] Inr False show ?thesis by auto
    next
      case True
      let ?c1 = "c\<lparr> own := (own c)(k \<mapsto> object_get defaults k) \<rparr>"
      from True Inr have u: "get_prop c k = Inr Undefined" by simp
      with Cons.prems have run: "defaults_loop defaults keys ?c1 = (e, c')"
        by (simp add: put_prop_undefined)
      note ih = Cons.IH[OF run]
      have g: "\<And>key. get_prop ?c1 key = Inr Undefined \<Longrightarrow> get_prop c key = Inr Undefined"
        using u by (auto simp: get_prop_undefined_iff lookup_data_def split: if_splits option.splits)
      have g2: "\<And>key. key \<noteq> k \<Longrightarrow> get_prop c key = Inr Undefined \<Longrightarrow> get_prop ?c1 key = Inr Undefined"
        by (auto simp: get_prop_undefined_iff lookup_data_def split: if_splits option.splits)
      have c1g: "getter ?c1 = getter c" and c1i: "inherited ?c1 = inherited c" by simp_all
      have c1o: "\<And>key. own ?c1 key = (if key = k then Some (object_get defaults k) else own c key)" by simp
      from ih have p1: "getter c' = getter c" and p2: "inherited c' = inherited c"
        using c1g c1i by simp_all
      have p3: "own c' key = Some (object_get defaults key) \<and> key \<in> set (k # keys) \<and> get_prop c key = Inr Undefined"
        if d: "own c' key \<noteq> own c key" for key
      proof (cases "own c' key = own ?c1 key")
        case True
        with d c1o[of key] have "key = k" by (auto split: if_splits)
        with True u show ?thesis by simp
      next
        case False
        with ih have "key \<in> set keys" "get_prop ?c1 key = Inr Undefined"
          "own c' key = Some (object_get defaults key)" by blast+
        with g[of key] show ?thesis by simp
      qed
      have p4: "own c' key = Some (object_get defaults key)"
        if e: "e = None" and m: "key \<in> set (k # keys)" and gu: "get_prop c key = Inr Undefined" for key
      proof (cases "key = k")
        case True
        show ?thesis
        proof (cases "own c' k = own ?c1 k")
          case True
          with \<open>key = k\<close> show ?thesis by simp
        next
          case False
          with ih \<open>key = k\<close> show ?thesis by blast
        qed
      next
        case False
        with m have "key \<in> set keys" by simp
        moreover from g2[OF False gu] have "get_prop ?c1 key = Inr Undefined" .
        ultimately show ?thesis using ih e by blast
      qed
      have p5: "''arguments'' \<in> set (k # keys) \<and>
          (\<exists>ps conf. getter c = Some (ps, conf) \<and> ''arguments'' \<in> set ps)" if "e \<noteq> None"
        using ih that c1g by simp
      show ?thesis using p1 p2 p3 p4 p5 by blast
    qed
  qed
qed


subsection \<open>\<open>withDefaults\<close>\<close>

text \<open>
  Claim C9. For every defaults object and every context, the updater of \<open>withDefaults\<close>
  changes a stored field only if the field read as \<open>undefined\<close> before and is a key of the
  defaults, and then the field holds the default value; hence a field that had a
  non-undefined value is left as it was, and so are the \<open>arguments\<close> accessor and the
  inherited properties. When the updater returns, every default key that read as
  \<open>undefined\<close> holds its default. The updater returns unless it has to read an
  \<open>arguments\<close> getter that names itself.
\<close>

theorem withDefaults_fills_only_undefined:
  assumes "withDefaults defaults self fn args c = (e, c')"
  shows "getter c' = getter c \<and> inherited c' = inherited c \<and>
     (\<forall>key. own c' key \<noteq> own c key \<longrightarrow>
        key \<in> set (object_keys defaults) \<and> get_prop c key = Inr Undefined \<and>
        own c' key = Some (object_get defaults key)) \<and>
     (e = None \<longrightarrow> (\<forall>key \<in> set (object_keys defaults). get_prop c key = Inr Undefined \<longrightarrow>
        own c' key = Some (object_get defaults key))) \<and>
     (e \<noteq> None \<longrightarrow> ''arguments'' \<in> set (object_keys defaults) \<and>
        (\<exists>ps conf. getter c = Some (ps, conf) \<and> ''arguments'' \<in> set ps))"
  using assms unfolding withDefaults_def by (rule defaults_loop_inv)

theorem withDefaults_fills_only_undefined_witness:
  "withDefaults [(''a'', VNum 1), (''b'', VNum 2)] Undefined Undefined 0
      (HookContext Map.empty [''b'' \<mapsto> VNum 7])
    = (None, HookContext Map.empty [''b'' \<mapsto> VNum 7, ''a'' \<mapsto> VNum 1]) \<and>
   own (HookContext Map.empty [''b'' \<mapsto> VNum 7, ''a'' \<mapsto> VNum 1]) ''a'' = Some (VNum 1) \<and>
   own (HookContext Map.empty [''b'' \<mapsto> VNum 7, ''a'' \<mapsto> VNum 1]) ''b''
     = own (HookContext Map.empty [''b'' \<mapsto> VNum 7]) ''b''"
proof -
  let ?c = "HookContext Map.empty [''b'' \<mapsto> VNum 7]"
  let ?c' = "HookContext Map.empty [''b'' \<mapsto> VNum 7, ''a'' \<mapsto> VNum 1]"
  have run: "withDefaults [(''a'', VNum 1), (''b'', VNum 2)] Undefined Undefined 0 ?c = (None, ?c')"
    by (simp add: withDefaults_def object_keys_def object_get_def get_prop_def put_prop_def
        lookup_data_def HookContext_def)
  have a: "get_prop ?c ''a'' = Inr Undefined"
    by (simp add: get_prop_def lookup_data_def HookContext_def)
  have b: "get_prop ?c ''b'' \<noteq> Inr Undefined"
    by (simp add: get_prop_def lookup_data_def HookContext_def)
  have k: "''a'' \<in> set (object_keys [(''a'', VNum 1), (''b'', VNum 2)])"
    by (simp add: object_keys_def)
  have d: "object_get [(''a'', VNum 1), (''b'', VNum 2)] ''a'' = VNum 1"
    by (simp add: object_get_def)
  from withDefaults_fills_only_undefined[OF run] a b k d
  have "own ?c' ''a'' = Some (VNum 1)" and "own ?c' ''b'' = own ?c ''b''"
    by metis+
  with run show ?thesis by simp
qed

subsection \<open>\<open>withParams\<close> without names\<close>

text \<open>
  Claim C8, as amended. On a context whose \<open>arguments\<close> is not the accessor of
  named-parameter mode, the updater of \<open>withParams()\<close> returns normally and changes the
  context in exactly this way: \<open>arguments\<close> becomes an own data property holding the
  reference of the raw argument array itself, and \<open>self\<close> is set to the receiver exactly
  when the receiver is truthy. No other field is added or changed.
\<close>

theorem withParams_no_names:
  assumes "getter c = None"
  shows "withParams [] h self fn args c =
     (None, c\<lparr> own := (if truthy self
                          then (own c)(''arguments'' \<mapsto> ArrRef args, ''self'' \<mapsto> self)
                          else (own c)(''arguments'' \<mapsto> ArrRef args)) \<rparr>)"
  using assms by (simp add: withParams_def put_prop_def)

theorem withParams_no_names_witness:
  "getter fresh_context = None \<and>
   get_prop (snd (withParams [] args_heap (ObjRef 1) (FunRef 0) 0 fresh_context)) ''arguments''
     = Inr (ArrRef 0) \<and>
   get_prop (snd (withParams [] args_heap (ObjRef 1) (FunRef 0) 0 fresh_context)) ''self''
     = Inr (ObjRef 1)"
proof -
  have g: "getter fresh_context = None"
    by (simp add: fresh_context_def HookContext_def)
  show ?thesis
    using g withParams_no_names[OF g, of args_heap "ObjRef 1" "FunRef 0" 0]
    by (simp add: get_prop_def lookup_data_def)
qed

text \<open>
  Claim C8 as stated fails on a context that an earlier \<open>withParams(''x'')\<close> has put in
  named-parameter mode: \<open>arguments\<close> is then an accessor without a setter, and the
  assignment \<open>context.arguments = args\<close> throws in the strict code of the module. The
  updater ends there: \<open>arguments\<close> is still the frozen snapshot and \<open>self\<close> is not set.
\<close>

theorem withParams_no_names_counterexample:
  "fst (withParams [] args_heap (ObjRef 1) (FunRef 0) 0
         (snd (withParams [''x''] args_heap Undefined (FunRef 0) 0 fresh_context)))
     = Some (TypeError ''Cannot set property arguments which has only a getter'') \<and>
   get_prop (snd (withParams [] args_heap (ObjRef 1) (FunRef 0) 0
         (snd (withParams [''x''] args_heap Undefined (FunRef 0) 0 fresh_context)))) ''arguments''
     = Inr (Frozen [VNum 1]) \<and>
   get_prop (snd (withParams [] args_heap (ObjRef 1) (FunRef 0) 0
         (snd (withParams [''x''] args_heap Undefined (FunRef 0) 0 fresh_context)))) ''self''
     = Inr Undefined"
  by code_simp

subsection \<open>\<open>withParams\<close> with the names \<open>a\<close> and \<open>b\<close>\<close>

text \<open>
  Claim C5, as amended. On a context whose \<open>arguments\<close> property is absent, a data
  property or a configurable accessor, the updater of \<open>withParams(''a'', ''b'')\<close> applied to the
  arguments \<open>(1, 2)\<close> returns normally; afterwards \<open>context.a\<close> is 1, \<open>context.b\<close> is 2 and
  \<open>context.arguments\<close> reads as the frozen array \<open>[1, 2]\<close>, computed from the named fields
  at each read (a later \<open>context.a = v\<close> shows up in it). Assigning to
  \<open>context.arguments\<close> or to one of its elements throws in strict code and does nothing
  in sloppy code; either way the context, and so \<open>context.a\<close>, and the heap stay as they
  were.
\<close>

theorem withParams_a_b:
  assumes "getter c = None \<or> (\<exists>ps. getter c = Some (ps, True))"
    and "h args = Some [VNum 1, VNum 2]"
  shows "\<exists>c'. withParams [''a'', ''b''] h self fn args c = (None, c') \<and>
     get_prop c' ''a'' = Inr (VNum 1) \<and>
     get_prop c' ''b'' = Inr (VNum 2) \<and>
     get_prop c' ''arguments'' = Inr (Frozen [VNum 1, VNum 2]) \<and>
     (\<forall>v. get_prop (snd (put_prop True c' ''a'' v)) ''arguments'' = Inr (Frozen [v, VNum 2])) \<and>
     (\<forall>strict v. put_prop strict c' ''arguments'' v =
        (if strict then Some (TypeError ''Cannot set property arguments which has only a getter'')
         else None, c')) \<and>
     (\<forall>strict i v. set_arguments_element strict h c' i v =
        (if strict then Some (TypeError ''Cannot assign to read only property'') else None, h))"
  using assms
  by (auto simp: withParams_def define_arguments_def put_prop_def get_prop_def index_arr_def
      lookup_data_def set_arguments_element_def array_put_def split: option.splits)

theorem withParams_a_b_witness:
  "getter fresh_context = None \<and> args_heap 0 = Some [VNum 1, VNum 2] \<and>
   (\<exists>c'. withParams [''a'', ''b''] args_heap (ObjRef 1) (FunRef 0) 0 fresh_context = (None, c') \<and>
      get_prop c' ''a'' = Inr (VNum 1) \<and>
      get_prop c' ''b'' = Inr (VNum 2) \<and>
      get_prop c' ''arguments'' = Inr (Frozen [VNum 1, VNum 2]))"
proof -
  have g: "getter fresh_context = None \<or> (\<exists>ps. getter fresh_context = Some (ps, True))"
    by (simp add: fresh_context_def HookContext_def)
  have a: "args_heap 0 = Some [VNum 1, VNum 2]"
    by (simp add: args_heap_def)
  from withParams_a_b[where h = args_heap and args = 0, OF g a, of "ObjRef 1" "FunRef 0"]
  have "\<exists>c'. withParams [''a'', ''b''] args_heap (ObjRef 1) (FunRef 0) 0 fresh_context = (None, c') \<and>
      get_prop c' ''a'' = Inr (VNum 1) \<and>
      get_prop c' ''b'' = Inr (VNum 2) \<and>
      get_prop c' ''arguments'' = Inr (Frozen [VNum 1, VNum 2])"
    by blast
  moreover have "getter fresh_context = None"
    by (simp add: fresh_context_def HookContext_def)
  ultimately show ?thesis using a by blast
qed

text \<open>
  Claim C5 as stated fails on a context that an earlier \<open>withParams(''x'')\<close> has put in
  named-parameter mode: the accessor \<open>arguments\<close> it installed is not configurable, so
  \<open>Object.defineProperty\<close> throws, and \<open>context.arguments\<close> still reads as the snapshot of
  the old name list, \<open>[1]\<close>, not \<open>[1, 2]\<close>.
\<close>

theorem withParams_a_b_counterexample:
  "fst (withParams [''a'', ''b''] args_heap Undefined (FunRef 0) 0
         (snd (withParams [''x''] args_heap Undefined (FunRef 0) 0 fresh_context)))
     = Some (TypeError ''Cannot redefine property: arguments'') \<and>
   get_prop (snd (withParams [''a'', ''b''] args_heap Undefined (FunRef 0) 0
         (snd (withParams [''x''] args_heap Undefined (FunRef 0) 0 fresh_context)))) ''arguments''
     = Inr (Frozen [VNum 1])"
  by code_simp

section \<open>Properties of registration and collection\<close>

lemma first_defined_upd_other:
  "x \<notin> set xs \<Longrightarrow> first_defined (f(x \<mapsto> v)) xs = first_defined f xs"
  by (induction xs) (auto split: option.splits)

lemma registerMiddleware_protos:
  "registerMiddleware st target mw = (r, st') \<Longrightarrow> protos st' = protos st"
  by (auto simp: registerMiddleware_def Let_def split: if_splits)

lemma registerMiddleware_appends:
  "registerMiddleware st target mw = (Inr t, st') \<Longrightarrow>
     getMiddleware st' target = getMiddleware st target @ mw"
  by (cases target) (auto simp: registerMiddleware_def getMiddleware_def read_hooks_def Let_def
      split: if_splits option.splits)

lemma read_hooks_upd_other:
  "t \<noteq> u \<Longrightarrow> t \<notin> set (protos st u) \<Longrightarrow>
     read_hooks (st\<lparr> slots := (slots st)(t \<mapsto> v) \<rparr>) u = read_hooks st u"
  using first_defined_upd_other[of t "u # protos st u" "slots st" v]
  by (simp add: read_hooks_def)

lemma registerMiddleware_other:
  "registerMiddleware st target mw = (r, st') \<Longrightarrow> target \<noteq> u \<Longrightarrow> target \<notin> set (protos st u) \<Longrightarrow>
     getMiddleware st' u = getMiddleware st u"
  by (auto simp: registerMiddleware_def getMiddleware_def Let_def read_hooks_upd_other
      split: if_splits)

lemma register_all_target:
  "register_all st0 ops = (Inr (), st) \<Longrightarrow>
   \<forall>op \<in> set ops. fst op = t \<or> fst op \<notin> set (protos st0 t) \<Longrightarrow>
   getMiddleware st t = getMiddleware st0 t @ concat (map snd (filter (\<lambda>op. fst op = t) ops))"
proof (induction ops arbitrary: st0)
  case Nil
  then show ?case by simp
next
  case (Cons op ops)
  obtain target mw where op: "op = (target, mw)" by (cases op)
  from Cons.prems(1) op obtain r st1 where
    r1: "registerMiddleware st0 target mw = (Inr r, st1)" and
    r2: "register_all st1 ops = (Inr (), st)"
    by (auto split: prod.splits sum.splits)
  have p: "protos st1 = protos st0" using r1 by (rule registerMiddleware_protos)
  from Cons.prems(2) p have "\<forall>op \<in> set ops. fst op = t \<or> fst op \<notin> set (protos st1 t)" by simp
  from Cons.IH[OF r2 this]
  have ih: "getMiddleware st t = getMiddleware st1 t @ concat (map snd (filter (\<lambda>op. fst op = t) ops))" .
  show ?case
  proof (cases "target = t")
    case True
    with r1 have "getMiddleware st1 t = getMiddleware st0 t @ mw"
      by (simp add: registerMiddleware_appends)
    with ih op True show ?thesis by simp
  next
    case False
    with Cons.prems(2) op have "target \<notin> set (protos st0 t)" by auto
    with r1 False have "getMiddleware st1 t = getMiddleware st0 t"
      by (simp add: registerMiddleware_other)
    with ih op False show ?thesis by simp
  qed
qed


subsection \<open>What a registration changes, seen through the prototype chain\<close>

lemma first_defined_upd:
  "first_defined (f(t \<mapsto> v)) xs = (if reaches_in f xs t then Some v else first_defined f xs)"
  by (induction xs) (auto split: option.splits)

lemma reaches_in_cong:
  "(\<And>x. x \<in> set xs \<Longrightarrow> x \<noteq> t \<Longrightarrow> f x = g x) \<Longrightarrow> reaches_in f xs t = reaches_in g xs t"
  by (induction xs) auto

lemma first_defined_reaches:
  "reaches_in f xs t \<Longrightarrow> first_defined f xs = first_defined f (dropWhile (\<lambda>x. x \<noteq> t) xs)"
  by (induction xs) auto

lemma reaches_in_mem: "reaches_in f xs t \<Longrightarrow> t \<in> set xs"
  by (induction xs) auto

lemma read_hooks_upd:
  "read_hooks (st\<lparr> slots := (slots st)(t \<mapsto> v) \<rparr>) u
     = (if reaches st u t then Some v else read_hooks st u)"
  using first_defined_upd[of "slots st" t v "u # protos st u"]
  by (simp add: read_hooks_def reaches_def del: first_defined.simps reaches_in.simps)

lemma registerMiddleware_effect:
  assumes "registerMiddleware st target mw = (Inr t, st')" and "truthy u"
  shows "getMiddleware st' u =
     (if reaches st u target then getMiddleware st target @ mw else getMiddleware st u)"
proof -
  from assms(1) have obj: "is_object target"
    and st': "st' = st\<lparr> slots := (slots st)(target \<mapsto>
        (case read_hooks st target of Some ms \<Rightarrow> ms | None \<Rightarrow> []) @ mw) \<rparr>"
    by (auto simp: registerMiddleware_def Let_def split: if_splits)
  from obj have tt: "truthy target" by (cases target) auto
  show ?thesis
    using assms(2) tt
    by (simp add: st' getMiddleware_def read_hooks_upd)
qed

lemma read_hooks_owner:
  assumes "reaches st u owner" and "continues_as st u owner"
  shows "read_hooks st u = read_hooks st owner"
  using first_defined_reaches[OF assms(1)[unfolded reaches_def]] assms(2)
  by (simp add: read_hooks_def continues_as_def del: first_defined.simps)

lemma register_all_protos:
  "register_all st0 ops = (r, st) \<Longrightarrow> protos st = protos st0"
proof (induction ops arbitrary: st0)
  case Nil
  then show ?case by simp
next
  case (Cons op ops)
  obtain target mw where op: "op = (target, mw)" by (cases op)
  obtain r1 st1 where r1: "registerMiddleware st0 target mw = (r1, st1)"
    by (cases "registerMiddleware st0 target mw")
  have p: "protos st1 = protos st0" using r1 by (rule registerMiddleware_protos)
  show ?case
  proof (cases r1)
    case (Inl e)
    with Cons.prems op r1 p show ?thesis by simp
  next
    case (Inr t)
    with Cons.prems op r1 have "register_all st1 ops = (r, st)" by simp
    from Cons.IH[OF this] p show ?thesis by simp
  qed
qed

lemma registerMiddleware_slots:
  "registerMiddleware st target mw = (r, st') \<Longrightarrow> x \<noteq> target \<Longrightarrow> slots st' x = slots st x"
  by (auto simp: registerMiddleware_def Let_def split: if_splits)

lemma register_all_slots:
  "register_all st0 ops = (r, st) \<Longrightarrow> x \<notin> fst ` set ops \<Longrightarrow> slots st x = slots st0 x"
proof (induction ops arbitrary: st0)
  case Nil
  then show ?case by simp
next
  case (Cons op ops)
  obtain target mw where op: "op = (target, mw)" by (cases op)
  obtain r1 st1 where r1: "registerMiddleware st0 target mw = (r1, st1)"
    by (cases "registerMiddleware st0 target mw")
  from Cons.prems(2) op have ne: "x \<noteq> target" and rest: "x \<notin> fst ` set ops" by auto
  have s1: "slots st1 x = slots st0 x" using r1 ne by (rule registerMiddleware_slots)
  show ?case
  proof (cases r1)
    case (Inl e)
    with Cons.prems(1) op r1 s1 show ?thesis by simp
  next
    case (Inr t)
    with Cons.prems(1) op r1 have "register_all st1 ops = (r, st)" by simp
    from Cons.IH[OF this rest] s1 show ?thesis by simp
  qed
qed

lemma register_all_owner:
  assumes run: "register_all st0 ops = (Inr (), st)"
    and tu: "truthy u" and town: "truthy owner"
    and re: "reaches st0 u owner"
    and co: "continues_as st0 u owner"
    and ops: "\<forall>op \<in> set ops. fst op = owner \<or> fst op \<notin> set (u # protos st0 u)"
  shows "getMiddleware st u = getMiddleware st0 owner @ concat (map snd (filter (\<lambda>op. fst op = owner) ops))"
proof -
  have p: "protos st = protos st0" using run by (rule register_all_protos)
  have "reaches_in (slots st) (u # protos st0 u) owner = reaches_in (slots st0) (u # protos st0 u) owner"
  proof (rule reaches_in_cong)
    fix x assume "x \<in> set (u # protos st0 u)" and "x \<noteq> owner"
    with ops have "x \<notin> fst ` set ops" by force
    with run show "slots st x = slots st0 x" by (rule register_all_slots)
  qed
  with re p have re': "reaches st u owner" by (simp add: reaches_def)
  from co p have co': "continues_as st u owner" by (simp add: continues_as_def)
  from read_hooks_owner[OF re' co'] tu town
  have same: "getMiddleware st u = getMiddleware st owner" by (simp add: getMiddleware_def)
  have sub: "set (protos st0 owner) \<subseteq> set (u # protos st0 u)"
  proof -
    have "set (owner # protos st0 owner) \<subseteq> set (u # protos st0 u)"
      using co set_dropWhileD[of _ "\<lambda>x. x \<noteq> owner" "u # protos st0 u"]
      unfolding continues_as_def by (metis subsetI)
    then show ?thesis by auto
  qed
  with ops have "\<forall>op \<in> set ops. fst op = owner \<or> fst op \<notin> set (protos st0 owner)" by blast
  from register_all_target[OF run this] same show ?thesis by simp
qed

subsection \<open>The default collector\<close>

text \<open>
  Claim C7, as amended. The default collector returns what \<open>getMiddleware\<close> shows for the
  receiver followed by what it shows for the callable, and the latter alone when the
  receiver is falsy. What \<open>getMiddleware\<close> shows for an object is the list under \<open>HOOKS\<close>
  of the first object on its prototype chain that has one, and a successful registration
  on \<open>target\<close> makes the own list of \<open>target\<close> what \<open>target\<close> showed followed by the new
  middleware: afterwards every object whose read reaches \<open>target\<close> shows that list, and
  every other object shows what it showed before. Hence, after a run of successful
  registrations of which those made on the receiver's prototype chain are all made on
  one object \<open>so\<close> that the receiver's read reaches (the receiver itself, or the
  prototype that carries its type-level hooks), and likewise on one object \<open>fo\<close> for the
  callable, the collector returns the middleware of \<open>so\<close> (what it showed before, then
  the lists registered on it, in registration order) followed by the middleware of \<open>fo\<close>
  (likewise): \<open>registerMiddleware\<close> appends by concatenation, and the receiver's part
  comes first.
\<close>

theorem defaultCollectMiddleware_visible_lists:
  "defaultCollectMiddleware st self fn args = getMiddleware st self @ getMiddleware st fn \<and>
   (\<not> truthy self \<longrightarrow> defaultCollectMiddleware st self fn args = getMiddleware st fn) \<and>
   (registerMiddleware st target mw = (Inr t, st') \<and> truthy u \<longrightarrow>
      getMiddleware st' u =
        (if reaches st u target then getMiddleware st target @ mw else getMiddleware st u)) \<and>
   (register_all st0 ops = (Inr (), st1) \<and>
    truthy self \<and> truthy so \<and> reaches st0 self so \<and> continues_as st0 self so \<and>
    truthy fn \<and> truthy fo \<and> reaches st0 fn fo \<and> continues_as st0 fn fo \<and>
    (\<forall>op \<in> set ops. (fst op = so \<or> fst op \<notin> set (self # protos st0 self)) \<and>
                      (fst op = fo \<or> fst op \<notin> set (fn # protos st0 fn))) \<longrightarrow>
      defaultCollectMiddleware st1 self fn args =
        (getMiddleware st0 so @ concat (map snd (filter (\<lambda>op. fst op = so) ops))) @
        (getMiddleware st0 fo @ concat (map snd (filter (\<lambda>op. fst op = fo) ops))))"
proof (intro conjI impI)
  show "defaultCollectMiddleware st self fn args = getMiddleware st self @ getMiddleware st fn"
    by (simp add: defaultCollectMiddleware_def)
next
  assume "\<not> truthy self"
  then show "defaultCollectMiddleware st self fn args = getMiddleware st fn"
    by (simp add: defaultCollectMiddleware_def getMiddleware_def)
next
  assume "registerMiddleware st target mw = (Inr t, st') \<and> truthy u"
  then show "getMiddleware st' u =
        (if reaches st u target then getMiddleware st target @ mw else getMiddleware st u)"
    using registerMiddleware_effect by blast
next
  assume a: "register_all st0 ops = (Inr (), st1) \<and>
    truthy self \<and> truthy so \<and> reaches st0 self so \<and> continues_as st0 self so \<and>
    truthy fn \<and> truthy fo \<and> reaches st0 fn fo \<and> continues_as st0 fn fo \<and>
    (\<forall>op \<in> set ops. (fst op = so \<or> fst op \<notin> set (self # protos st0 self)) \<and>
                      (fst op = fo \<or> fst op \<notin> set (fn # protos st0 fn)))"
  then have run: "register_all st0 ops = (Inr (), st1)"
    and s: "truthy self" "truthy so" "reaches st0 self so" "continues_as st0 self so"
    and f: "truthy fn" "truthy fo" "reaches st0 fn fo" "continues_as st0 fn fo"
    and os: "\<forall>op \<in> set ops. fst op = so \<or> fst op \<notin> set (self # protos st0 self)"
    and of: "\<forall>op \<in> set ops. fst op = fo \<or> fst op \<notin> set (fn # protos st0 fn)"
    by blast+
  show "defaultCollectMiddleware st1 self fn args =
        (getMiddleware st0 so @ concat (map snd (filter (\<lambda>op. fst op = so) ops))) @
        (getMiddleware st0 fo @ concat (map snd (filter (\<lambda>op. fst op = fo) ops)))"
    unfolding defaultCollectMiddleware_def
    using register_all_owner[OF run s os] register_all_owner[OF run f of] by simp
qed

lemmas store_defs = registerMiddleware_def read_hooks_def getMiddleware_def
  defaultCollectMiddleware_def proto_store_def reaches_def continues_as_def

theorem defaultCollectMiddleware_visible_lists_witness:
  "defaultCollectMiddleware
     (snd (register_all proto_store
        [(ObjRef 2, [''p1'']), (FunRef 3, [''c1'']), (ObjRef 2, [''p2'', ''p3''])]))
     (ObjRef 1) (FunRef 3) 0
   = [''p1'', ''p2'', ''p3'', ''c1''] \<and>
   getMiddleware (snd (registerMiddleware proto_store (ObjRef 2) [''p1''])) (ObjRef 1) = [''p1'']"
proof -
  let ?ops = "[(ObjRef 2, [''p1'']), (FunRef 3, [''c1'']), (ObjRef 2, [''p2'', ''p3''])]"
  obtain st where run: "register_all proto_store ?ops = (Inr (), st)"
    by (simp add: registerMiddleware_def read_hooks_def proto_store_def)
  have h: "truthy (ObjRef 1) \<and> truthy (ObjRef 2) \<and> reaches proto_store (ObjRef 1) (ObjRef 2) \<and>
      continues_as proto_store (ObjRef 1) (ObjRef 2) \<and>
      truthy (FunRef 3) \<and> truthy (FunRef 3) \<and> reaches proto_store (FunRef 3) (FunRef 3) \<and>
      continues_as proto_store (FunRef 3) (FunRef 3) \<and>
      (\<forall>op \<in> set ?ops. (fst op = ObjRef 2 \<or> fst op \<notin> set (ObjRef 1 # protos proto_store (ObjRef 1))) \<and>
                        (fst op = FunRef 3 \<or> fst op \<notin> set (FunRef 3 # protos proto_store (FunRef 3))))"
    by (simp add: proto_store_def reaches_def continues_as_def)
  have e: "getMiddleware proto_store (ObjRef 2) = []" "getMiddleware proto_store (FunRef 3) = []"
    by (simp_all add: getMiddleware_def read_hooks_def proto_store_def)
  note inst = defaultCollectMiddleware_visible_lists[where ?st0.0 = proto_store and ops = ?ops
      and ?st1.0 = st and self = "ObjRef 1" and so = "ObjRef 2" and fn = "FunRef 3" and fo = "FunRef 3"
      and args = 0 and st = proto_store and target = "ObjRef 2" and mw = "[''p1'']"
      and u = "ObjRef 1" and t = "ObjRef 2"
      and st' = "snd (registerMiddleware proto_store (ObjRef 2) [''p1''])"]
  from inst run h e
  have c: "defaultCollectMiddleware st (ObjRef 1) (FunRef 3) 0 = [''p1'', ''p2'', ''p3'', ''c1'']"
    by simp
  have reg: "registerMiddleware proto_store (ObjRef 2) [''p1'']
      = (Inr (ObjRef 2), snd (registerMiddleware proto_store (ObjRef 2) [''p1'']))"
    by (simp add: registerMiddleware_def)
  have r: "reaches proto_store (ObjRef 1) (ObjRef 2)" "truthy (ObjRef 1)"
    by (simp_all add: proto_store_def reaches_def)
  from inst reg r e
  have "getMiddleware (snd (registerMiddleware proto_store (ObjRef 2) [''p1''])) (ObjRef 1) = [''p1'']"
    by simp
  with c run show ?thesis by simp
qed

text \<open>
  Claim C7 as stated fails when middleware are registered on a receiver and on its
  prototype: the first registration on the receiver copies what the prototype showed at
  that moment into a list of the receiver's own, which hides the prototype's from then
  on. Here \<open>p1\<close> is registered on the prototype, \<open>r1\<close> on the receiver, \<open>p2\<close> on the
  prototype and \<open>c1\<close> on the callable. The collector returns \<open>p1, r1, c1\<close>: not the
  middleware registered on the receiver (\<open>r1\<close>) followed by the callable's, and not the
  type-level middleware \<open>p1, p2\<close> that the prototype shows followed by them either.
\<close>

theorem defaultCollectMiddleware_visible_lists_counterexample:
  "defaultCollectMiddleware
     (snd (register_all proto_store
        [(ObjRef 2, [''p1'']), (ObjRef 1, [''r1'']), (ObjRef 2, [''p2'']), (FunRef 3, [''c1''])]))
     (ObjRef 1) (FunRef 3) 0
   = [''p1'', ''r1'', ''c1''] \<and>
   getMiddleware
     (snd (register_all proto_store
        [(ObjRef 2, [''p1'']), (ObjRef 1, [''r1'']), (ObjRef 2, [''p2'']), (FunRef 3, [''c1''])]))
     (ObjRef 2)
   = [''p1'', ''p2'']"
  by (simp add: store_defs)

section \<open>Properties of object hooks\<close>

lemma is_object_not_nullish: "is_object obj \<Longrightarrow> obj \<noteq> Undefined \<and> obj \<noteq> Null"
  by (cases obj) auto

lemma write_field_object:
  "is_object obj \<Longrightarrow>
     write_field st obj name v = (None, st\<lparr> props := (props st)(obj := (props st obj)(name \<mapsto> v)) \<rparr>)"
  by (simp add: write_field_def is_object_not_nullish)

lemma first_defined_cong:
  "(\<And>x. x \<in> set xs \<Longrightarrow> f x = g x) \<Longrightarrow> first_defined f xs = first_defined g xs"
  by (induction xs) (auto split: option.splits)

lemma read_field_write_other:
  "k \<noteq> name \<Longrightarrow>
     read_field (st\<lparr> props := (props st)(obj := (props st obj)(name \<mapsto> v)) \<rparr>) obj k
       = read_field st obj k"
proof -
  have "first_defined (\<lambda>x. ((props st)(obj := (props st obj)(name \<mapsto> v))) x k) (obj # protos st obj)
      = first_defined (\<lambda>x. props st x k) (obj # protos st obj)" if "k \<noteq> name"
    by (rule first_defined_cong) (use that in auto)
  then show "k \<noteq> name \<Longrightarrow> ?thesis" by (simp add: read_field_def)
qed

lemma hooks_reduce_rejects:
  assumes "is_object obj"
    and "set keys \<subseteq> set (map fst hooks)"
    and "distinct keys"
    and "\<exists>k \<in> set keys. \<not> is_function (projr (read_field st obj k))"
  shows "\<exists>pre bad post st'. keys = pre @ bad # post \<and>
           (\<forall>k \<in> set pre. is_function (projr (read_field st obj k))) \<and>
           \<not> is_function (projr (read_field st obj bad)) \<and>
           hooks_reduce functionHooks hooks keys obj st
             = (Inl (Error (not_a_function_message bad)), st')"
  using assms(2-4)
proof (induction keys arbitrary: st)
  case Nil
  then show ?case by simp
next
  case (Cons k keys)
  from assms(1) obtain v where rd: "read_field st obj k = Inr v"
    by (simp add: read_field_def is_object_not_nullish)
  from Cons.prems(1) obtain settings where mo: "map_of hooks k = Some settings"
    by (cases "map_of hooks k") (auto simp: map_of_eq_None_iff)
  show ?case
  proof (cases "is_function v")
    case False
    have "hooks_reduce functionHooks hooks (k # keys) obj st
            = (Inl (Error (not_a_function_message k)), st)"
      using rd mo False by (simp add: Let_def)
    moreover have "\<not> is_function (projr (read_field st obj k))" using rd False by simp
    ultimately show ?thesis by (intro exI[of _ "[]"] exI[of _ k] exI[of _ keys] exI[of _ st]) simp
  next
    case True
    let ?w = "functionHooks v
                 \<lparr> p_middleware = Some (o_middleware (normalizeOptions settings)),
                   p_context = Some (UpdaterFn (method_context
                      (UpdaterArray (o_context (normalizeOptions settings))) k)),
                   p_collect = Some (o_collect (normalizeOptions settings)) \<rparr>"
    let ?st1 = "st\<lparr> props := (props st)(obj := (props st obj)(k \<mapsto> ?w)) \<rparr>"
    have step: "hooks_reduce functionHooks hooks (k # keys) obj st
                  = hooks_reduce functionHooks hooks keys obj ?st1"
      using rd mo True by (simp add: Let_def write_field_object[OF assms(1)])
    have same: "read_field ?st1 obj j = read_field st obj j" if "j \<in> set keys" for j
    proof -
      from that Cons.prems(2) have "j \<noteq> k" by auto
      then show ?thesis by (rule read_field_write_other)
    qed
    from Cons.prems(3) rd True
    have "\<exists>j \<in> set keys. \<not> is_function (projr (read_field st obj j))" by auto
    with same have ex: "\<exists>j \<in> set keys. \<not> is_function (projr (read_field ?st1 obj j))" by auto
    from Cons.prems(1,2) have sub: "set keys \<subseteq> set (map fst hooks)" and dis: "distinct keys" by auto
    from Cons.IH[OF sub dis ex] obtain pre bad post st' where
      k: "keys = pre @ bad # post" and
      p: "\<forall>j \<in> set pre. is_function (projr (read_field ?st1 obj j))" and
      b: "\<not> is_function (projr (read_field ?st1 obj bad))" and
      r: "hooks_reduce functionHooks hooks keys obj ?st1 = (Inl (Error (not_a_function_message bad)), st')"
      by blast
    from k have mem: "bad \<in> set keys" "set pre \<subseteq> set keys" by auto
    have "k # keys = (k # pre) @ bad # post" using k by simp
    moreover have "\<forall>j \<in> set (k # pre). is_function (projr (read_field st obj j))"
    proof
      fix j assume j: "j \<in> set (k # pre)"
      show "is_function (projr (read_field st obj j))"
      proof (cases "j = k")
        case True
        with rd \<open>is_function v\<close> show ?thesis by simp
      next
        case False
        with j have jp: "j \<in> set pre" by simp
        with mem have jk: "j \<in> set keys" by blast
        from p jp have "is_function (projr (read_field ?st1 obj j))" by blast
        then show ?thesis unfolding same[OF jk] .
      qed
    qed
    moreover have "\<not> is_function (projr (read_field st obj bad))"
      using b unfolding same[OF mem(1)] .
    ultimately show ?thesis using step r by metis
  qed
qed


text \<open>
  Claim C6. Let \<open>obj\<close> be the object that \<open>objectHooks\<close> works on (the prototype when a
  class is passed) and let the hook map have some key whose property on \<open>obj\<close> is not a
  function. Then the call of \<open>objectHooks\<close> itself ends with the error
  \<open>Can not apply hooks. '<key>' is not a function\<close>, naming the first such key of the map:
  the failure belongs to registration, and no wrapped method has to be called to see it.
\<close>

theorem objectHooks_rejects_non_function:
  assumes "(if is_function obj0 then read_field st obj0 ''prototype'' else Inr obj0) = Inr obj"
    and "is_object obj"
    and "distinct (map fst m)"
    and "\<exists>k \<in> set (map fst m). \<not> is_function (projr (read_field st obj k))"
  shows "\<exists>pre bad post st'. map fst m = pre @ bad # post \<and>
           (\<forall>k \<in> set pre. is_function (projr (read_field st obj k))) \<and>
           \<not> is_function (projr (read_field st obj bad)) \<and>
           objectHooks functionHooks st obj0 (HookMap m)
             = (Inl (Error (not_a_function_message bad)), st')"
proof -
  have "objectHooks functionHooks st obj0 (HookMap m)
          = hooks_reduce functionHooks m (map fst m) obj st"
    using assms(1) by (simp add: objectHooks_def)
  with hooks_reduce_rejects[OF assms(2) _ assms(3) assms(4), of m functionHooks]
  show ?thesis by simp
qed

theorem objectHooks_rejects_non_function_witness:
  "is_object (ObjRef 1) \<and>
   \<not> is_function (projr (read_field greeter_store (ObjRef 1) ''name'')) \<and>
   (\<exists>bad st'. objectHooks wrapper_stub greeter_store (ObjRef 1)
        (HookMap [(''sayHi'', SettingsArray []), (''name'', SettingsArray [])])
      = (Inl (Error (not_a_function_message bad)), st'))"
proof -
  let ?m = "[(''sayHi'', SettingsArray []), (''name'', SettingsArray [])] :: (string \<times> string hook_settings) list"
  have a1: "(if is_function (ObjRef 1) then read_field greeter_store (ObjRef 1) ''prototype''
             else Inr (ObjRef 1)) = Inr (ObjRef 1)" by simp
  have a2: "is_object (ObjRef 1)" by simp
  have a3: "distinct (map fst ?m)" by simp
  have n: "\<not> is_function (projr (read_field greeter_store (ObjRef 1) ''name''))"
    by (simp add: read_field_def greeter_store_def)
  then have a4: "\<exists>k \<in> set (map fst ?m). \<not> is_function (projr (read_field greeter_store (ObjRef 1) k))"
    by simp
  from objectHooks_rejects_non_function[OF a1 a2 a3 a4, of wrapper_stub] a2 n
  show ?thesis by blast
qed

text \<open>
  Claim C10. The updater that \<open>objectHooks\<close> builds for a method calls
  \<open>originalContext\<close>, which is \<open>options.context\<close> as \<open>normalizeOptions\<close> returned it: an
  array of updaters, not a function. So for every settings value, every method name and
  every context, running the updater throws a \<open>TypeError\<close> at that call; the configured
  updaters are not applied and \<open>context.method\<close> is not set.
\<close>

theorem objectHooks_method_context_throws:
  "method_context (UpdaterArray (o_context (normalizeOptions settings))) method h self fn args c
     = (Some (TypeError ''originalContext is not a function''), c)"
  by (simp add: method_context_def call_updater_def)

text \<open>
  One step of the reducer on a property that is a function: the property is replaced by
  the wrapper that \<open>functionHooks\<close> returns for the settings holding exactly that updater.
\<close>

lemma hooks_reduce_installs:
  assumes "is_object obj" and "read_field st obj method = Inr val" and "is_function val"
    and "map_of hooks method = Some settings"
  shows "hooks_reduce functionHooks hooks (method # rest) obj st =
     hooks_reduce functionHooks hooks rest obj
       (st\<lparr> props := (props st)(obj := (props st obj)(method \<mapsto>
          functionHooks val
            \<lparr> p_middleware = Some (o_middleware (normalizeOptions settings)),
              p_context = Some (UpdaterFn (method_context
                 (UpdaterArray (o_context (normalizeOptions settings))) method)),
              p_collect = Some (o_collect (normalizeOptions settings)) \<rparr>)) \<rparr>)"
  using assms by (simp add: Let_def write_field_object)

section \<open>Properties of the composer\<close>

subsection \<open>A proof rule for one activation\<close>

text \<open>
  Any relation between the state before and after that holds of each kind of step, is
  closed under sequencing and under catching, and holds of the rest of the chain, holds
  of a whole activation.
\<close>

lemma run_steps_rel:
  assumes skip: "\<And>c s. R c s None c s"
    and seq: "\<And>c s c1 s1 r c2 s2. R c s None c1 s1 \<Longrightarrow> R c1 s1 r c2 s2 \<Longrightarrow> R c s r c2 s2"
    and emit: "\<And>c s e. R c s None c (emit (MiddlewareEvent e) s)"
    and await: "\<And>c s. R c s None c (s\<lparr> suspensions := Suc (suspensions s) \<rparr>)"
    and set_ok: "\<And>c s name v x. put_prop True (ctx s) name v = (None, x) \<Longrightarrow> R c s None c (s\<lparr> ctx := x \<rparr>)"
    and set_fail: "\<And>c s name v e x. put_prop True (ctx s) name v = (Some e, x) \<Longrightarrow>
        R c s (Some (DomainFailure e)) c (emit (Raised (DomainFailure e)) (s\<lparr> ctx := x \<rparr>))"
    and throw: "\<And>c s e. R c s (Some (DomainFailure e)) c (emit (Raised (DomainFailure e)) s)"
    and guard: "\<And>s. R True s (Some (ProtocolViolation ''next() called multiple times'')) True
        (emit (Raised (ProtocolViolation ''next() called multiple times'')) s)"
    and catch: "\<And>c s e c1 s1 r c2 s2. R c s (Some (DomainFailure e)) c1 s1 \<Longrightarrow>
        R c1 (emit (Caught (DomainFailure e)) s1) r c2 s2 \<Longrightarrow> R c s r c2 s2"
  shows "\<forall>s r s'. next s = (r, s') \<longrightarrow> R False s r True s' \<Longrightarrow>
     run_steps next steps called s = (r, called', s') \<Longrightarrow> R called s r called' s'"
proof (induction "next" steps called s arbitrary: r called' s' rule: run_steps.induct)
  case (1 "next" called s)
  from "1.prems"(2) show ?case using skip by auto
next
  case (2 "next" e rest called s)
  from "2.IH"[OF "2.prems"(1) "2.prems"(2)[simplified]] show ?case using seq emit by blast
next
  case (3 "next" rest called s)
  from "3.IH"[OF "3.prems"(1) "3.prems"(2)[simplified]] show ?case using seq await by blast
next
  case (4 "next" name v rest called s)
  obtain x y where p: "put_prop True (ctx s) name v = (x, y)" by (cases "put_prop True (ctx s) name v")
  show ?case
  proof (cases x)
    case None
    with "4.prems" p have "run_steps next rest called (s\<lparr>ctx := y\<rparr>) = (r, called', s')" by simp
    from "4.IH"[OF p[symmetric] None "4.prems"(1) this] set_ok[of s name v y called] p None
    show ?thesis using seq by blast
  next
    case (Some e)
    with "4.prems" p set_fail[of s name v e y called] show ?thesis by auto
  qed
next
  case (5 "next" e rest called s)
  from "5.prems"(2) show ?case using throw by auto
next
  case (6 "next" rest called s)
  show ?case
  proof (cases called)
    case True
    with "6.prems"(2) show ?thesis using guard by auto
  next
    case False
    obtain r1 s1 where n: "next s = (r1, s1)" by (cases "next s")
    from "6.prems"(1) n have call: "R False s r1 True s1" by blast
    show ?thesis
    proof (cases r1)
      case (Some f)
      with "6.prems"(2) False n call show ?thesis by auto
    next
      case None
      with "6.prems"(2) False n have run: "run_steps next rest True s1 = (r, called', s')" by simp
      from call None False have c0: "R called s None True s1" by simp
      from seq[OF c0 "6.IH"[OF False n[symmetric] None "6.prems"(1) run]] show ?thesis .
    qed
  qed
next
  case (7 "next" body handler rest called s)
  obtain r1 c1 s1 where b: "run_steps next body called s = (r1, c1, s1)"
    by (cases "run_steps next body called s")
  note R1 = "7.IH"(1)[OF "7.prems"(1) b]
  show ?case
  proof (cases r1)
    case None
    with "7.prems"(2) b have run: "run_steps next rest c1 s1 = (r, called', s')" by simp
    from "7.IH"(2)[OF b[symmetric] None refl "7.prems"(1) run] R1 None show ?thesis using seq by blast
  next
    case (Some f)
    show ?thesis
    proof (cases f)
      case (ProtocolViolation m)
      with "7.prems"(2) b Some R1 show ?thesis by auto
    next
      case (DomainFailure e)
      let ?s2 = "emit (Caught (DomainFailure e)) s1"
      obtain r3 c3 s3 where hd: "run_steps next handler c1 ?s2 = (r3, c3, s3)"
        by (cases "run_steps next handler c1 ?s2")
      note R3 = "7.IH"(3)[OF b[symmetric] Some DomainFailure refl "7.prems"(1) hd]
      from R1 Some DomainFailure have R1': "R called s (Some (DomainFailure e)) c1 s1" by simp
      have R13: "R called s r3 c3 s3" using catch[OF R1' R3] .
      show ?thesis
      proof (cases r3)
        case None
        with "7.prems"(2) b Some DomainFailure hd
        have run: "run_steps next rest c3 s3 = (r, called', s')" by simp
        from "7.IH"(4)[OF b[symmetric] \<open>r1 = Some f\<close> DomainFailure refl hd[symmetric] None refl "7.prems"(1) run]
          R13 None show ?thesis using seq by blast
      next
        case (Some g)
        with "7.prems"(2) b \<open>r1 = Some f\<close> DomainFailure hd have "r = Some g" "called' = c3" "s' = s3"
          by simp_all
        with R13 Some show ?thesis by auto
      qed
    qed
  qed
next
  case (8 "next" cond yes no rest called s)
  obtain r1 c1 s1 where b: "run_steps next (if cond (ctx s) then yes else no) called s = (r1, c1, s1)"
    by (cases "run_steps next (if cond (ctx s) then yes else no) called s")
  note R1 = "8.IH"(1)[OF "8.prems"(1) b]
  show ?case
  proof (cases r1)
    case None
    with "8.prems"(2) b have run: "run_steps next rest c1 s1 = (r, called', s')" by simp
    from "8.IH"(2)[OF b[symmetric] None refl "8.prems"(1) run] R1 None show ?thesis using seq by blast
  next
    case (Some f)
    with "8.prems"(2) b R1 show ?thesis by auto
  qed
qed

subsection \<open>What a run adds to the trace\<close>

lemma settle_append:
  "settle p (xs @ ys) = (case settle p xs of None \<Rightarrow> None | Some q \<Rightarrow> settle q ys)"
  by (induction p xs rule: settle.induct) auto

lemma settle_seq:
  "settle None xs = Some None \<Longrightarrow> settle None ys = Some r \<Longrightarrow> settle None (xs @ ys) = Some r"
  by (simp add: settle_append)

lemma settle_catch:
  "settle None xs = Some (Some f) \<Longrightarrow> settle None ys = Some r \<Longrightarrow>
     settle None (xs @ Caught f # ys) = Some r"
  by (simp add: settle_append)

lemma run_steps_new:
  assumes nil: "\<And>c. Q c c [] None"
    and seq: "\<And>c c1 c2 n1 n2 r. Q c c1 n1 None \<Longrightarrow> Q c1 c2 n2 r \<Longrightarrow> Q c c2 (n1 @ n2) r"
    and ev: "\<And>c e. Q c c [MiddlewareEvent e] None"
    and raise: "\<And>c e. Q c c [Raised (DomainFailure e)] (Some (DomainFailure e))"
    and guard: "Q True True [Raised (ProtocolViolation ''next() called multiple times'')]
        (Some (ProtocolViolation ''next() called multiple times''))"
    and catch: "\<And>c c1 c2 n1 n2 e r. Q c c1 n1 (Some (DomainFailure e)) \<Longrightarrow> Q c1 c2 n2 r \<Longrightarrow>
        Q c c2 (n1 @ Caught (DomainFailure e) # n2) r"
    and call: "\<forall>s r s'. next s = (r, s') \<longrightarrow> (\<exists>new. trace s' = trace s @ new \<and> Q False True new r)"
    and run: "run_steps next steps called s = (r, called', s')"
  shows "\<exists>new. trace s' = trace s @ new \<and> Q called called' new r"
proof (rule run_steps_rel[where R = "\<lambda>c s r c' s'. \<exists>new. trace s' = trace s @ new \<and> Q c c' new r",
        OF _ _ _ _ _ _ _ _ _ call run])
  show "\<exists>new. trace s = trace s @ new \<and> Q c c new None" for s :: invocation and c
    using nil by simp
next
  fix s s1 s2 :: invocation and r c c1 c2
  assume "\<exists>new. trace s1 = trace s @ new \<and> Q c c1 new None"
    and "\<exists>new. trace s2 = trace s1 @ new \<and> Q c1 c2 new r"
  then obtain n1 n2 where "trace s1 = trace s @ n1" "Q c c1 n1 None"
    "trace s2 = trace s1 @ n2" "Q c1 c2 n2 r" by blast
  then have "trace s2 = trace s @ (n1 @ n2)" "Q c c2 (n1 @ n2) r"
    by (simp_all add: seq)
  then show "\<exists>new. trace s2 = trace s @ new \<and> Q c c2 new r" by blast
next
  show "\<exists>new. trace (emit (MiddlewareEvent e) s) = trace s @ new \<and> Q c c new None" for s e c
    using ev by (simp add: emit_def)
next
  show "\<exists>new. trace (s\<lparr>suspensions := Suc (suspensions s)\<rparr>) = trace s @ new \<and> Q c c new None"
    for s c using nil by simp
next
  show "\<exists>new. trace (s\<lparr>ctx := x\<rparr>) = trace s @ new \<and> Q c c new None" for s x c
    using nil by simp
next
  show "\<exists>new. trace (emit (Raised (DomainFailure e)) (s\<lparr>ctx := x\<rparr>)) = trace s @ new \<and>
          Q c c new (Some (DomainFailure e))" for s x e c
    using raise by (simp add: emit_def)
next
  show "\<exists>new. trace (emit (Raised (DomainFailure e)) s) = trace s @ new \<and>
          Q c c new (Some (DomainFailure e))" for s e c
    using raise by (simp add: emit_def)
next
  show "\<exists>new. trace (emit (Raised (ProtocolViolation ''next() called multiple times'')) s) = trace s @ new \<and>
          Q True True new (Some (ProtocolViolation ''next() called multiple times''))" for s
    using guard by (simp add: emit_def)
next
  fix s s1 s2 :: invocation and r e c c1 c2
  assume "\<exists>new. trace s1 = trace s @ new \<and> Q c c1 new (Some (DomainFailure e))"
    and "\<exists>new. trace s2 = trace (emit (Caught (DomainFailure e)) s1) @ new \<and> Q c1 c2 new r"
  then obtain n1 n2 where "trace s1 = trace s @ n1" "Q c c1 n1 (Some (DomainFailure e))"
    "trace s2 = trace (emit (Caught (DomainFailure e)) s1) @ n2" "Q c1 c2 n2 r" by blast
  then have "trace s2 = trace s @ (n1 @ Caught (DomainFailure e) # n2)"
    "Q c c2 (n1 @ Caught (DomainFailure e) # n2) r"
    by (simp_all add: catch emit_def)
  then show "\<exists>new. trace s2 = trace s @ new \<and> Q c c2 new r" by blast
qed

lemma terminal_call_new:
  assumes "terminal_call h terminal s = (r, s')"
  shows "\<exists>new. trace s' = trace s @ new \<and> settle None new = Some r \<and> terminal_calls new \<le> 1 \<and>
     (\<forall>m. Caught (ProtocolViolation m) \<notin> set new) \<and> (\<forall>m. Raised (ProtocolViolation m) \<notin> set new)"
  using assms
  by (auto simp: terminal_call_def emit_def terminal_calls_def split: sum.splits if_splits)

text \<open>The outcome of a chain is the failure that was raised and not caught.\<close>

lemma compose_settle:
  "compose ms h terminal s = (r, s') \<Longrightarrow> \<exists>new. trace s' = trace s @ new \<and> settle None new = Some r"
proof (induction ms arbitrary: s r s')
  case Nil
  then show ?case using terminal_call_new[of h terminal s r s'] by auto
next
  case (Cons m ms)
  obtain c' where run: "run_steps (compose ms h terminal) m False s = (r, c', s')"
    using Cons.prems by (auto split: prod.splits)
  have call: "\<forall>s r s'. compose ms h terminal s = (r, s') \<longrightarrow>
      (\<exists>new. trace s' = trace s @ new \<and> settle None new = Some r)"
    using Cons.IH by blast
  show ?case
    by (rule run_steps_new[where Q = "\<lambda>c c' new r. settle None new = Some r", OF _ _ _ _ _ _ call run])
      (simp_all add: settle_seq settle_catch)
qed

text \<open>A chain calls the terminal function at most once.\<close>

lemma terminal_calls_append [simp]:
  "terminal_calls (xs @ ys) = terminal_calls xs + terminal_calls ys"
  by (simp add: terminal_calls_def)

lemma terminal_calls_simps [simp]:
  "terminal_calls [] = 0"
  "terminal_calls (TerminalCall args # es) = Suc (terminal_calls es)"
  "terminal_calls (MiddlewareEvent e # es) = terminal_calls es"
  "terminal_calls (Raised f # es) = terminal_calls es"
  "terminal_calls (Caught f # es) = terminal_calls es"
  by (simp_all add: terminal_calls_def)

lemma compose_terminal_once:
  "compose ms h terminal s = (r, s') \<Longrightarrow> \<exists>new. trace s' = trace s @ new \<and> terminal_calls new \<le> 1"
proof (induction ms arbitrary: s r s')
  case Nil
  then show ?case using terminal_call_new[of h terminal s r s'] by auto
next
  case (Cons m ms)
  obtain c' where run: "run_steps (compose ms h terminal) m False s = (r, c', s')"
    using Cons.prems by (auto split: prod.splits)
  let ?Q = "\<lambda>c c' new (r :: failure option). terminal_calls new + of_bool c \<le> (of_bool c' :: nat)"
  have call: "\<forall>s r s'. compose ms h terminal s = (r, s') \<longrightarrow>
      (\<exists>new. trace s' = trace s @ new \<and> ?Q False True new r)"
    using Cons.IH by simp
  have "\<exists>new. trace s' = trace s @ new \<and> ?Q False c' new r"
    by (rule run_steps_new[where Q = ?Q, OF _ _ _ _ _ _ call run]) simp_all
  then obtain new where "trace s' = trace s @ new" "terminal_calls new \<le> of_bool c'" by auto
  moreover have "of_bool c' \<le> (1 :: nat)" by simp
  ultimately show ?case using le_trans by blast
qed

text \<open>A protocol violation is never caught, and it carries the guard's message.\<close>

lemma compose_violation:
  "compose ms h terminal s = (r, s') \<Longrightarrow> \<exists>new. trace s' = trace s @ new \<and>
     (\<forall>m. Caught (ProtocolViolation m) \<notin> set new) \<and>
     (\<forall>m. Raised (ProtocolViolation m) \<in> set new \<longrightarrow> m = ''next() called multiple times'')"
proof (induction ms arbitrary: s r s')
  case Nil
  then show ?case using terminal_call_new[of h terminal s r s'] by auto
next
  case (Cons m ms)
  obtain c' where run: "run_steps (compose ms h terminal) m False s = (r, c', s')"
    using Cons.prems by (auto split: prod.splits)
  let ?Q = "\<lambda>(c :: bool) (c' :: bool) new (r :: failure option).
     (\<forall>m. Caught (ProtocolViolation m) \<notin> set new) \<and>
     (\<forall>m. Raised (ProtocolViolation m) \<in> set new \<longrightarrow> m = ''next() called multiple times'')"
  have call: "\<forall>s r s'. compose ms h terminal s = (r, s') \<longrightarrow>
      (\<exists>new. trace s' = trace s @ new \<and> ?Q False True new r)"
    using Cons.IH by simp
  show ?case
    by (rule run_steps_new[where Q = ?Q, OF _ _ _ _ _ _ call run]) auto
qed

lemma settle_violation:
  "settle p es = Some r \<Longrightarrow> \<forall>m. Caught (ProtocolViolation m) \<notin> set es \<Longrightarrow>
   Raised (ProtocolViolation m) \<in> set es \<or> p = Some (ProtocolViolation m) \<Longrightarrow>
   r = Some (ProtocolViolation m)"
  by (induction p es rule: settle.induct) (auto split: if_splits)

subsection \<open>Sections, sequencing and independence from the rest of the chain\<close>

lemma run_steps_append:
  "run_steps next (xs @ ys) called s =
     (case run_steps next xs called s of
        (None, called', s') \<Rightarrow> run_steps next ys called' s'
      | (Some f, called', s') \<Rightarrow> (Some f, called', s'))"
  by (induction "next" xs called s rule: run_steps.induct)
     (auto split: prod.splits option.splits failure.splits)

lemma put_prop_plain: "name \<noteq> ''arguments'' \<Longrightarrow> fst (put_prop True c name v) = None"
  by (simp add: put_prop_def)

lemma run_steps_plain:
  "list_all plain_step steps \<Longrightarrow> run_steps next steps called s = (None, called, run_plain steps s)"
proof (induction steps arbitrary: s)
  case Nil
  then show ?case by (simp add: run_plain_def)
next
  case (Cons st steps)
  then show ?case
    by (cases st) (auto simp: run_plain_def put_prop_def split: prod.splits)
qed

lemma trace_run_plain:
  "list_all plain_step steps \<Longrightarrow> trace (run_plain steps s) = trace s @ section_events steps"
proof (induction steps arbitrary: s)
  case Nil
  then show ?case by (simp add: run_plain_def)
next
  case (Cons st steps)
  then show ?case by (cases st) (auto simp: run_plain_def emit_def)
qed

lemma run_steps_mono:
  "run_steps next steps called s = (r, called', s') \<Longrightarrow> called \<longrightarrow> called'"
  by (rule run_steps_rel[where R = "\<lambda>c s r c' s'. c \<longrightarrow> c'" and ?next = "next"]) auto


lemma run_steps_independent:
  "run_steps next steps called s = (r, False, s') \<Longrightarrow>
     run_steps next' steps called s = (r, False, s')"
proof (induction "next" steps called s arbitrary: r s' rule: run_steps.induct)
  case (1 "next" called s)
  then show ?case by simp
next
  case (2 "next" e rest called s)
  then show ?case by simp
next
  case (3 "next" rest called s)
  then show ?case by simp
next
  case (4 "next" name v rest called s)
  then show ?case by (auto split: prod.splits option.splits)
next
  case (5 "next" e rest called s)
  then show ?case by simp
next
  case (6 "next" rest called s)
  show ?case
  proof (cases called)
    case True
    with "6.prems" show ?thesis by simp
  next
    case False
    obtain r1 s1 where n: "next s = (r1, s1)" by (cases "next s")
    show ?thesis
    proof (cases r1)
      case (Some f)
      with "6.prems" False n show ?thesis by simp
    next
      case None
      with "6.prems" False n have "run_steps next rest True s1 = (r, False, s')" by simp
      from run_steps_mono[OF this] show ?thesis by simp
    qed
  qed
next
  case (7 "next" body handler rest called s)
  obtain r1 c1 s1 where b: "run_steps next body called s = (r1, c1, s1)"
    by (cases "run_steps next body called s")
  show ?case
  proof (cases r1)
    case None
    with "7.prems" b have run: "run_steps next rest c1 s1 = (r, False, s')" by simp
    from run_steps_mono[OF run] have c1: "c1 = False" by simp
    from "7.IH"(1)[of r1 s1] b c1 have b': "run_steps next' body called s = (r1, False, s1)" by simp
    from "7.IH"(2)[OF b[symmetric] None refl] run c1
    have "run_steps next' rest False s1 = (r, False, s')" by simp
    with b' None show ?thesis by simp
  next
    case (Some f)
    show ?thesis
    proof (cases f)
      case (ProtocolViolation m)
      with "7.prems" b Some have c1: "c1 = False" and rs: "r = Some (ProtocolViolation m)" "s' = s1"
        by simp_all
      from "7.IH"(1)[of r1 s1] b c1 have "run_steps next' body called s = (r1, False, s1)" by simp
      with Some ProtocolViolation rs show ?thesis by simp
    next
      case (DomainFailure e)
      let ?s2 = "emit (Caught (DomainFailure e)) s1"
      obtain r3 c3 s3 where hd: "run_steps next handler c1 ?s2 = (r3, c3, s3)"
        by (cases "run_steps next handler c1 ?s2")
      have c3: "c3 = False"
      proof (cases r3)
        case None
        with "7.prems" b Some DomainFailure hd
        have "run_steps next rest c3 s3 = (r, False, s')" by simp
        from run_steps_mono[OF this] show ?thesis by simp
      next
        case (Some g)
        with "7.prems" b \<open>r1 = Some f\<close> DomainFailure hd show ?thesis by simp
      qed
      from run_steps_mono[OF hd] c3 have c1: "c1 = False" by simp
      from "7.IH"(1)[of r1 s1] b c1 have b': "run_steps next' body called s = (r1, False, s1)" by simp
      from "7.IH"(3)[OF b[symmetric] Some DomainFailure refl, of r3 s3] hd c1 c3
      have h': "run_steps next' handler False ?s2 = (r3, False, s3)" by simp
      show ?thesis
      proof (cases r3)
        case None
        with "7.prems" b Some DomainFailure hd c3
        have run: "run_steps next rest False s3 = (r, False, s')" by simp
        from "7.IH"(4)[OF b[symmetric] Some DomainFailure refl hd[symmetric] None refl] run c3
        have "run_steps next' rest False s3 = (r, False, s')" by simp
        with b' h' Some DomainFailure None show ?thesis by simp
      next
        case (Some g)
        with "7.prems" b \<open>r1 = Some f\<close> DomainFailure hd have "r = Some g" "s' = s3" by simp_all
        with b' h' \<open>r1 = Some f\<close> DomainFailure Some show ?thesis by simp
      qed
    qed
  qed
next
  case (8 "next" cond yes no rest called s)
  obtain r1 c1 s1 where b: "run_steps next (if cond (ctx s) then yes else no) called s = (r1, c1, s1)"
    by (cases "run_steps next (if cond (ctx s) then yes else no) called s")
  have c1: "c1 = False"
  proof (cases r1)
    case None
    with "8.prems" b have "run_steps next rest c1 s1 = (r, False, s')" by simp
    from run_steps_mono[OF this] show ?thesis by simp
  next
    case (Some f)
    with "8.prems" b show ?thesis by simp
  qed
  from "8.IH"(1)[of r1 s1] b c1
  have b': "run_steps next' (if cond (ctx s) then yes else no) called s = (r1, False, s1)" by simp
  show ?case
  proof (cases r1)
    case None
    with "8.prems" b c1 have run: "run_steps next rest False s1 = (r, False, s')" by simp
    from "8.IH"(2)[OF b[symmetric] None refl] run c1
    have "run_steps next' rest False s1 = (r, False, s')" by simp
    with b' None show ?thesis by simp
  next
    case (Some f)
    with "8.prems" b have "r = Some f" "s' = s1" by simp_all
    with b' Some show ?thesis by simp
  qed
qed

lemma compose_onion:
  assumes "\<forall>sec \<in> set secs. list_all plain_step (fst sec) \<and> list_all plain_step (snd sec)"
  shows "compose (map onion secs @ inner) h terminal s =
     (case compose inner h terminal (run_befores secs s) of
        (None, s1) \<Rightarrow> (None, run_afters secs s1)
      | (Some f, s1) \<Rightarrow> (Some f, s1))"
  using assms
proof (induction secs arbitrary: s)
  case Nil
  then show ?case by (simp add: run_befores_def run_afters_def split: prod.splits option.splits)
next
  case (Cons sec secs)
  obtain b a where sec: "sec = (b, a)" by (cases sec)
  from Cons.prems sec have pb: "list_all plain_step b" and pa: "list_all plain_step a"
    and rest: "\<forall>sec \<in> set secs. list_all plain_step (fst sec) \<and> list_all plain_step (snd sec)"
    by auto
  note ih = Cons.IH[OF rest]
  have bef: "run_befores (sec # secs) s = run_befores secs (run_plain b s)"
    by (simp add: run_befores_def sec)
  have aft: "run_afters (sec # secs) x = run_plain a (run_afters secs x)" for x
    by (simp add: run_afters_def sec)
  have os: "onion sec = b @ Proceed # a" by (simp add: onion_def sec)
  have step: "compose (map onion (sec # secs) @ inner) h terminal s =
     (case compose (map onion secs @ inner) h terminal (run_plain b s) of
        (None, s1) \<Rightarrow> (None, run_plain a s1)
      | (Some f, s1) \<Rightarrow> (Some f, s1))"
    by (simp add: os run_steps_append run_steps_plain[OF pb] run_steps_plain[OF pa]
        split: prod.splits option.splits)
  show ?case
    unfolding step ih[of "run_plain b s"] bef
    by (simp add: aft split: prod.splits option.splits)
qed

lemma lookup_result_apply_plain:
  "plain_step st \<Longrightarrow> keeps_result st \<Longrightarrow>
     lookup_data (ctx (apply_plain st s)) ''result'' = lookup_data (ctx s) ''result''"
  by (cases st) (auto simp: emit_def put_prop_def lookup_data_def split: option.splits)

lemma lookup_result_run_plain:
  "list_all plain_step steps \<Longrightarrow> list_all keeps_result steps \<Longrightarrow>
     lookup_data (ctx (run_plain steps s)) ''result'' = lookup_data (ctx s) ''result''"
proof (induction steps arbitrary: s)
  case Nil
  then show ?case by (simp add: run_plain_def)
next
  case (Cons st steps)
  then have "lookup_data (ctx (run_plain steps (apply_plain st s))) ''result''
      = lookup_data (ctx (apply_plain st s)) ''result''" by simp
  with Cons.prems show ?case by (simp add: run_plain_def lookup_result_apply_plain)
qed

lemma trace_run_befores:
  "\<forall>sec \<in> set secs. list_all plain_step (fst sec) \<Longrightarrow>
     trace (run_befores secs s) = trace s @ concat (map (\<lambda>sec. section_events (fst sec)) secs)"
proof (induction secs arbitrary: s)
  case Nil
  then show ?case by (simp add: run_befores_def)
next
  case (Cons sec secs)
  have "run_befores (sec # secs) s = run_befores secs (run_plain (fst sec) s)"
    by (simp add: run_befores_def)
  with Cons show ?case by (simp add: trace_run_plain)
qed

lemma trace_run_afters:
  "\<forall>sec \<in> set secs. list_all plain_step (snd sec) \<Longrightarrow>
     trace (run_afters secs s) = trace s @ concat (map (\<lambda>sec. section_events (snd sec)) (rev secs))"
proof (induction secs arbitrary: s)
  case Nil
  then show ?case by (simp add: run_afters_def)
next
  case (Cons sec secs)
  have "run_afters (sec # secs) s = run_plain (snd sec) (run_afters secs s)"
    by (simp add: run_afters_def)
  with Cons show ?case by (simp add: trace_run_plain)
qed

lemma terminal_call_ok:
  "spread_arguments h (ctx s) = Inr args \<Longrightarrow> terminal args = Inr v \<Longrightarrow>
     \<exists>s'. terminal_call h terminal s = (None, s') \<and> trace s' = trace s @ [TerminalCall args]"
  by (simp add: terminal_call_def emit_def)


subsection \<open>Onion order\<close>

text \<open>
  Claim C1. For every sequence of onion middleware whose before- and after-sections
  are plain (they emit events and await as often as they like), and every terminal
  function that returns on the context's arguments, the composed callable resolves and
  the events observed are: the before-sections' events in registration order, the call
  of the terminal function, the after-sections' events in reverse registration order.
  For three middleware A, B, C this is A-before, B-before, C-before, T, C-after, B-after,
  A-after.
\<close>

theorem compose_onion_order:
  assumes "\<forall>sec \<in> set secs. list_all plain_step (fst sec) \<and> list_all plain_step (snd sec)"
    and "spread_arguments h (ctx (run_befores secs s)) = Inr args"
    and "terminal args = Inr v"
  shows "\<exists>s'. compose (map onion secs) h terminal s = (None, s') \<and>
     trace s' = trace s @ concat (map (\<lambda>sec. section_events (fst sec)) secs)
                @ [TerminalCall args]
                @ concat (map (\<lambda>sec. section_events (snd sec)) (rev secs))"
proof -
  from terminal_call_ok[where terminal = terminal and args = args, OF assms(2,3)] obtain s1 where
    t: "terminal_call h terminal (run_befores secs s) = (None, s1)" and
    t1: "trace s1 = trace (run_befores secs s) @ [TerminalCall args]" by blast
  from compose_onion[OF assms(1), of "[]" h terminal s] t
  have c: "compose (map onion secs) h terminal s = (None, run_afters secs s1)" by simp
  from assms(1) have pb: "\<forall>sec \<in> set secs. list_all plain_step (fst sec)"
    and pa: "\<forall>sec \<in> set secs. list_all plain_step (snd sec)" by blast+
  have "trace (run_afters secs s1) = trace s @ concat (map (\<lambda>sec. section_events (fst sec)) secs)
                @ [TerminalCall args]
                @ concat (map (\<lambda>sec. section_events (snd sec)) (rev secs))"
    by (simp add: trace_run_afters[OF pa] t1 trace_run_befores[OF pb])
  with c show ?thesis by blast
qed

theorem compose_onion_order_witness:
  "\<exists>s'. compose (map onion abc_sections) args_heap ok_terminal start = (None, s') \<and>
     trace s' = [MiddlewareEvent ''A-before'', MiddlewareEvent ''B-before'', MiddlewareEvent ''C-before'',
                 TerminalCall [VNum 1, VNum 2],
                 MiddlewareEvent ''C-after'', MiddlewareEvent ''B-after'', MiddlewareEvent ''A-after'']"
proof -
  have p: "\<forall>sec \<in> set abc_sections. list_all plain_step (fst sec) \<and> list_all plain_step (snd sec)"
    by (simp add: abc_sections_def)
  have c: "ctx (run_befores abc_sections start) = call_context"
    by (simp add: run_befores_def run_plain_def abc_sections_def start_def emit_def)
  have a: "spread_arguments args_heap (ctx (run_befores abc_sections start)) = Inr [VNum 1, VNum 2]"
    unfolding c by (simp add: spread_arguments_def get_prop_def lookup_data_def call_context_def args_heap_def)
  have t: "ok_terminal [VNum 1, VNum 2] = Inr (VStr ''done'')" by (simp add: ok_terminal_def)
  from compose_onion_order[where terminal = ok_terminal and args = "[VNum 1, VNum 2]", OF p a t]
  show ?thesis by (simp add: abc_sections_def start_def)
qed

subsection \<open>Calling \<open>proceed\<close> twice\<close>

text \<open>
  Claim C3. A \<open>proceed\<close> reached when the activation has already called \<open>proceed\<close>
  raises the \<open>ProtocolViolation\<close> with the message \<open>next() called multiple times\<close> and
  does not run the rest of the chain. For every chain: whenever such a violation is
  raised during an invocation, the composed callable fails with exactly that
  \<open>ProtocolViolation\<close>; and in every invocation the terminal function is called at most
  once.
\<close>

theorem double_proceed_is_protocol_violation:
  "run_steps next (Proceed # rest) True s =
     (Some (ProtocolViolation ''next() called multiple times''), True,
      emit (Raised (ProtocolViolation ''next() called multiple times'')) s) \<and>
   (compose ms h terminal s0 = (r, s') \<longrightarrow>
     (\<exists>new. trace s' = trace s0 @ new \<and> terminal_calls new \<le> 1 \<and>
        (\<forall>m. Raised (ProtocolViolation m) \<in> set new \<longrightarrow>
           m = ''next() called multiple times'' \<and>
           r = Some (ProtocolViolation ''next() called multiple times''))))"
proof (intro conjI impI)
  show "run_steps next (Proceed # rest) True s =
     (Some (ProtocolViolation ''next() called multiple times''), True,
      emit (Raised (ProtocolViolation ''next() called multiple times'')) s)" by simp
next
  assume run: "compose ms h terminal s0 = (r, s')"
  from compose_settle[OF run] obtain n1 where
    t1: "trace s' = trace s0 @ n1" and p1: "settle None n1 = Some r" by blast
  from compose_terminal_once[OF run] obtain n2 where
    t2: "trace s' = trace s0 @ n2" and p2: "terminal_calls n2 \<le> 1" by blast
  from compose_violation[OF run] obtain n3 where
    t3: "trace s' = trace s0 @ n3" and
    p3: "\<forall>m. Caught (ProtocolViolation m) \<notin> set n3"
        "\<forall>m. Raised (ProtocolViolation m) \<in> set n3 \<longrightarrow> m = ''next() called multiple times''"
    by blast
  from t1 t2 t3 have e: "n2 = n1" "n3 = n1" by simp_all
  have "m = ''next() called multiple times'' \<and>
        r = Some (ProtocolViolation ''next() called multiple times'')"
    if "Raised (ProtocolViolation m) \<in> set n1" for m
  proof -
    from that p3 e have m: "m = ''next() called multiple times''" by blast
    from settle_violation[OF p1, of m] p3(1) e that have "r = Some (ProtocolViolation m)" by blast
    with m show ?thesis by simp
  qed
  with t1 p2 e show "\<exists>new. trace s' = trace s0 @ new \<and> terminal_calls new \<le> 1 \<and>
        (\<forall>m. Raised (ProtocolViolation m) \<in> set new \<longrightarrow>
           m = ''next() called multiple times'' \<and>
           r = Some (ProtocolViolation ''next() called multiple times''))" by blast
qed

theorem double_proceed_is_protocol_violation_witness:
  "fst (compose [double_proceed_middleware] args_heap ok_terminal start)
     = Some (ProtocolViolation ''next() called multiple times'') \<and>
   terminal_calls (trace (snd (compose [double_proceed_middleware] args_heap ok_terminal start))) \<le> 1"
proof -
  obtain r s' where run: "compose [double_proceed_middleware] args_heap ok_terminal start = (r, s')"
    by (cases "compose [double_proceed_middleware] args_heap ok_terminal start")
  have tr: "trace s' = [MiddlewareEvent ''A'', TerminalCall [VNum 1, VNum 2],
                 Raised (ProtocolViolation ''next() called multiple times'')]"
    using run
    by (auto simp: double_proceed_middleware_def terminal_call_def spread_arguments_def get_prop_def
      lookup_data_def start_def call_context_def args_heap_def ok_terminal_def emit_def put_prop_def)
  from double_proceed_is_protocol_violation[where ms = "[double_proceed_middleware]"
      and h = args_heap and terminal = ok_terminal and r = r and s' = s', THEN conjunct2] run
  obtain new where n: "trace s' = trace start @ new" "terminal_calls new \<le> 1"
    "\<forall>m. Raised (ProtocolViolation m) \<in> set new \<longrightarrow>
       m = ''next() called multiple times'' \<and>
       r = Some (ProtocolViolation ''next() called multiple times'')" by blast
  from n(1) tr have new: "new = trace s'" by (simp add: start_def)
  with n(3) tr have "r = Some (ProtocolViolation ''next() called multiple times'')" by simp
  with run n(2) new show ?thesis by simp
qed

subsection \<open>Short circuit\<close>

lemma terminal_calls_section_events [simp]: "terminal_calls (section_events steps) = 0"
  by (induction steps rule: section_events.induct) simp_all

lemma terminal_calls_concat_sections [simp]:
  "terminal_calls (concat (map (\<lambda>sec. section_events (f sec)) secs)) = 0"
  by (induction secs) simp_all

lemma run_steps_without_next:
  assumes "run_steps next steps called s = (r, False, s')"
  shows "terminal_calls (trace s') = terminal_calls (trace s)"
proof -
  from run_steps_independent[OF assms]
  have run: "run_steps (\<lambda>x. (None, x)) steps called s = (r, False, s')" .
  have call: "\<forall>s r s'. (\<lambda>x. (None, x)) s = (r, s') \<longrightarrow>
      (\<exists>new. trace s' = trace s @ new \<and> terminal_calls new = 0)" by simp
  have "\<exists>new. trace s' = trace s @ new \<and> terminal_calls new = 0"
    by (rule run_steps_new[where Q = "\<lambda>c c' new r. terminal_calls new = 0", OF _ _ _ _ _ _ call run])
      simp_all
  then show ?thesis by auto
qed

lemma lookup_result_run_afters:
  "\<forall>sec \<in> set secs. list_all plain_step (snd sec) \<and> list_all keeps_result (snd sec) \<Longrightarrow>
     lookup_data (ctx (run_afters secs s)) ''result'' = lookup_data (ctx s) ''result''"
proof (induction secs arbitrary: s)
  case Nil
  then show ?case by (simp add: run_afters_def)
next
  case (Cons sec secs)
  have "run_afters (sec # secs) s = run_plain (snd sec) (run_afters secs s)"
    by (simp add: run_afters_def)
  with Cons show ?case by (simp add: lookup_result_run_plain)
qed

text \<open>
  Once an activation has called \<open>proceed\<close>, what it does no longer depends on the rest
  of the chain: a second call is refused by the guard.
\<close>

lemma run_steps_called:
  "called \<Longrightarrow> run_steps next steps called s = run_steps next' steps called s"
proof (induction "next" steps called s rule: run_steps.induct)
  case (1 "next" called s)
  then show ?case by simp
next
  case (2 "next" e rest called s)
  then show ?case by simp
next
  case (3 "next" rest called s)
  then show ?case by simp
next
  case (4 "next" name v rest called s)
  then show ?case by (auto split: prod.splits option.splits)
next
  case (5 "next" e rest called s)
  then show ?case by simp
next
  case (6 "next" rest called s)
  then show ?case by simp
next
  case (7 "next" body handler rest called s)
  obtain r1 c1 s1 where b: "run_steps next body called s = (r1, c1, s1)"
    by (cases "run_steps next body called s")
  from "7.IH"(1)[OF "7.prems"] b have b': "run_steps next' body called s = (r1, c1, s1)" by simp
  from run_steps_mono[OF b] "7.prems" have c1: c1 by simp
  show ?case
  proof (cases r1)
    case None
    from "7.IH"(2)[OF b[symmetric] None refl c1] b b' None show ?thesis by simp
  next
    case (Some f)
    show ?thesis
    proof (cases f)
      case (ProtocolViolation m)
      with b b' Some show ?thesis by simp
    next
      case (DomainFailure e)
      let ?s2 = "emit (Caught (DomainFailure e)) s1"
      obtain r3 c3 s3 where hd: "run_steps next handler c1 ?s2 = (r3, c3, s3)"
        by (cases "run_steps next handler c1 ?s2")
      from "7.IH"(3)[OF b[symmetric] Some DomainFailure refl c1] hd
      have hd': "run_steps next' handler c1 ?s2 = (r3, c3, s3)" by simp
      from run_steps_mono[OF hd] c1 have c3: c3 by simp
      show ?thesis
      proof (cases r3)
        case None
        from "7.IH"(4)[OF b[symmetric] Some DomainFailure refl hd[symmetric] None refl c3]
          b b' Some DomainFailure hd hd' None show ?thesis by simp
      next
        case (Some g)
        with b b' \<open>r1 = Some f\<close> DomainFailure hd hd' show ?thesis by simp
      qed
    qed
  qed
next
  case (8 "next" cond yes no rest called s)
  obtain r1 c1 s1 where b: "run_steps next (if cond (ctx s) then yes else no) called s = (r1, c1, s1)"
    by (cases "run_steps next (if cond (ctx s) then yes else no) called s")
  from "8.IH"(1)[OF "8.prems"] b
  have b': "run_steps next' (if cond (ctx s) then yes else no) called s = (r1, c1, s1)" by simp
  from run_steps_mono[OF b] "8.prems" have c1: c1 by simp
  show ?case
  proof (cases r1)
    case None
    from "8.IH"(2)[OF b[symmetric] None refl c1] b b' None show ?thesis by simp
  next
    case (Some f)
    with b b' show ?thesis by simp
  qed
qed


lemma then_agree:
  assumes "run_steps n2 xs c s = run_steps n3 xs c s" and "fst (snd (run_steps n3 xs c s))"
  shows "(case run_steps n2 xs c s of
            (None, c2, s2) \<Rightarrow> run_steps n2 rest c2 s2
          | (Some g, c2, s2) \<Rightarrow> (Some g, c2, s2))
       = (case run_steps n3 xs c s of
            (None, c2, s2) \<Rightarrow> run_steps n3 rest c2 s2
          | (Some g, c2, s2) \<Rightarrow> (Some g, c2, s2))"
proof -
  obtain r1 c1 s1 where b: "run_steps n3 xs c s = (r1, c1, s1)" by (cases "run_steps n3 xs c s")
  with assms(2) have c1: "c1 = True" by simp
  have "run_steps n2 rest True s1 = run_steps n3 rest True s1" by (rule run_steps_called) simp
  with assms(1) b c1 show ?thesis by (simp split: option.splits)
qed

lemma try_agree:
  assumes eq: "run_steps n2 body c s = run_steps n3 body c s"
    and fl: "fst (snd (run_steps n3 body c s))"
  shows "run_steps n2 (Try body handler # rest) c s = run_steps n3 (Try body handler # rest) c s"
proof -
  obtain r1 c1 s1 where b: "run_steps n3 body c s = (r1, c1, s1)" by (cases "run_steps n3 body c s")
  with fl have c1: "c1 = True" by simp
  show ?thesis
  proof (cases r1)
    case None
    have "run_steps n2 rest True s1 = run_steps n3 rest True s1" by (rule run_steps_called) simp
    with eq b c1 None show ?thesis by simp
  next
    case (Some f)
    show ?thesis
    proof (cases f)
      case (ProtocolViolation m)
      with eq b Some show ?thesis by simp
    next
      case (DomainFailure e)
      let ?s2 = "emit (Caught (DomainFailure e)) s1"
      have h: "run_steps n2 handler True ?s2 = run_steps n3 handler True ?s2"
        by (rule run_steps_called) simp
      obtain r3 c3 s3 where hd: "run_steps n3 handler True ?s2 = (r3, c3, s3)"
        by (cases "run_steps n3 handler True ?s2")
      from run_steps_mono[OF hd] have c3: "c3 = True" by simp
      have "run_steps n2 rest True s3 = run_steps n3 rest True s3" by (rule run_steps_called) simp
      with eq b c1 Some DomainFailure h hd c3 show ?thesis by (simp split: option.splits)
    qed
  qed
qed

text \<open>
  Run with a rest of the chain that fails at once and cannot be caught, an activation
  that calls \<open>proceed\<close> ends at that call. Every other rest of the chain is called in
  the same state, and two of them that agree on that state give the same activation.
\<close>

lemma run_steps_call_state:
  "\<forall>y. p y = (Some (ProtocolViolation m0), y) \<Longrightarrow> run_steps p steps c s = (r, c', x) \<Longrightarrow>
     \<not> c \<Longrightarrow> c' \<Longrightarrow>
     r = Some (ProtocolViolation m0) \<and>
     (\<forall>n2 n3. n2 x = n3 x \<longrightarrow> run_steps n2 steps c s = run_steps n3 steps c s) \<and>
     (\<forall>n2. fst (snd (run_steps n2 steps c s)))"
proof (induction p steps c s arbitrary: r c' x rule: run_steps.induct)
  case (1 p called s)
  then show ?case by simp
next
  case (2 p e rest called s)
  have w: "run_steps n (Emit e # rest) called s
      = run_steps n rest called (emit (MiddlewareEvent e) s)" for n by simp
  from "2.IH"[OF "2.prems"(1) "2.prems"(2)[simplified] "2.prems"(3,4)] show ?case unfolding w .
next
  case (3 p rest called s)
  have w: "run_steps n (Await # rest) called s
      = run_steps n rest called (s\<lparr>suspensions := Suc (suspensions s)\<rparr>)" for n by simp
  from "3.IH"[OF "3.prems"(1) "3.prems"(2)[simplified] "3.prems"(3,4)] show ?case unfolding w .
next
  case (4 p name v rest called s)
  obtain e y where pp: "put_prop True (ctx s) name v = (e, y)"
    by (cases "put_prop True (ctx s) name v")
  show ?case
  proof (cases e)
    case None
    with "4.prems"(2) pp have run: "run_steps p rest called (s\<lparr>ctx := y\<rparr>) = (r, c', x)" by simp
    have w: "run_steps n (SetField name v # rest) called s
        = run_steps n rest called (s\<lparr>ctx := y\<rparr>)" for n using pp None by simp
    from "4.IH"[OF pp[symmetric] None "4.prems"(1) run "4.prems"(3,4)]
    show ?thesis unfolding w .
  next
    case (Some err)
    with "4.prems"(2,3,4) pp show ?thesis by simp
  qed
next
  case (5 p e rest called s)
  then show ?case by simp
next
  case (6 p rest called s)
  from "6.prems" have rx: "r = Some (ProtocolViolation m0)" "x = s" by simp_all
  have agree: "run_steps n2 (Proceed # rest) called s = run_steps n3 (Proceed # rest) called s"
    if "n2 x = n3 x" for n2 n3
  proof -
    have "run_steps n2 rest True y = run_steps n3 rest True y" for y
      by (rule run_steps_called) simp
    with that rx(2) "6.prems"(3) show ?thesis
      by (simp split: prod.splits option.splits)
  qed
  have flag: "fst (snd (run_steps n2 (Proceed # rest) called s))" for n2
  proof (cases "n2 s")
    case (Pair r1 s1)
    show ?thesis
    proof (cases r1)
      case None
      obtain r2 c2 s2 where rr: "run_steps n2 rest True s1 = (r2, c2, s2)"
        by (cases "run_steps n2 rest True s1")
      from run_steps_mono[OF rr] have c2 by simp
      with Pair None rr "6.prems"(3) show ?thesis by simp
    next
      case (Some f)
      with Pair "6.prems"(3) show ?thesis by simp
    qed
  qed
  from rx agree flag show ?case by blast
next
  case (7 p body handler rest called s)
  note hp = "7.prems"(1) and nc = "7.prems"(3) and c' = "7.prems"(4)
  obtain rb cb xb where b: "run_steps p body called s = (rb, cb, xb)"
    by (cases "run_steps p body called s")
  have tail: "run_steps n2 st True y = run_steps n3 st True y" for n2 n3 st y
    by (rule run_steps_called) simp
  have flag_after: "fst (snd (run_steps n2 (Try body handler # rest) called s))"
    if "fst (snd (run_steps n2 body called s))" for n2
  proof -
    obtain r1 c1 s1 where b2: "run_steps n2 body called s = (r1, c1, s1)"
      by (cases "run_steps n2 body called s")
    with that have c1: c1 by simp
    show ?thesis
    proof (cases r1)
      case None
      obtain r2 c2 s2 where rr: "run_steps n2 rest c1 s1 = (r2, c2, s2)"
        by (cases "run_steps n2 rest c1 s1")
      from run_steps_mono[OF rr] c1 have c2 by simp
      with b2 None rr show ?thesis by simp
    next
      case (Some f)
      show ?thesis
      proof (cases f)
        case (ProtocolViolation m)
        with b2 Some c1 show ?thesis by simp
      next
        case (DomainFailure e)
        obtain r3 c3 s3 where hd: "run_steps n2 handler c1 (emit (Caught (DomainFailure e)) s1) = (r3, c3, s3)"
          by (cases "run_steps n2 handler c1 (emit (Caught (DomainFailure e)) s1)")
        from run_steps_mono[OF hd] c1 have c3: c3 by simp
        show ?thesis
        proof (cases r3)
          case None
          obtain r4 c4 s4 where rr: "run_steps n2 rest c3 s3 = (r4, c4, s4)"
            by (cases "run_steps n2 rest c3 s3")
          from run_steps_mono[OF rr] c3 have c4 by simp
          with b2 Some DomainFailure hd None rr show ?thesis by simp
        next
          case (Some g)
          with b2 \<open>r1 = Some f\<close> DomainFailure hd c3 show ?thesis by simp
        qed
      qed
    qed
  qed
  show ?case
  proof (cases cb)
    case True
    from "7.IH"(1)[OF hp b nc True]
    have rb: "rb = Some (ProtocolViolation m0)"
      and ab: "\<And>n2 n3. n2 xb = n3 xb \<Longrightarrow> run_steps n2 body called s = run_steps n3 body called s"
      and fb: "\<And>n2. fst (snd (run_steps n2 body called s))" by blast+
    from "7.prems"(2) b rb have rx: "r = Some (ProtocolViolation m0)" "x = xb" by simp_all
    have agree: "run_steps n2 (Try body handler # rest) called s
        = run_steps n3 (Try body handler # rest) called s" if "n2 x = n3 x" for n2 n3
    proof -
      from that rx have "n2 xb = n3 xb" by simp
      then have eq: "run_steps n2 body called s = run_steps n3 body called s" by (rule ab)
      show ?thesis by (rule try_agree[OF eq fb])
    qed
    from rx agree flag_after[OF fb] show ?thesis by blast
  next
    case False
    from False have cbF: "cb = False" by simp
    from b False have b0: "run_steps p body called s = (rb, False, xb)" by simp
    have ball: "\<And>n2. run_steps n2 body called s = (rb, False, xb)"
      by (rule run_steps_independent[OF b0])
    show ?thesis
    proof (cases rb)
      case None
      with "7.prems"(2) b False have run: "run_steps p rest False xb = (r, c', x)" by simp
      have "r = Some (ProtocolViolation m0) \<and>
          (\<forall>n2 n3. n2 x = n3 x \<longrightarrow> run_steps n2 rest False xb = run_steps n3 rest False xb) \<and>
          (\<forall>n2. fst (snd (run_steps n2 rest False xb)))"
        by (rule "7.IH"(2)[OF b[symmetric] None refl hp, unfolded cbF, OF run]) (simp_all add: c')
      then have rr: "r = Some (ProtocolViolation m0)"
        and ar: "\<And>n2 n3. n2 x = n3 x \<Longrightarrow> run_steps n2 rest False xb = run_steps n3 rest False xb"
        and fr: "\<And>n2. fst (snd (run_steps n2 rest False xb))" by blast+
      have w: "run_steps n2 (Try body handler # rest) called s = run_steps n2 rest False xb" for n2
        by (simp add: ball None)
      show ?thesis unfolding w using rr ar fr by blast
    next
      case (Some f)
      show ?thesis
      proof (cases f)
        case (ProtocolViolation m)
        with "7.prems"(2) b Some False c' show ?thesis by simp
      next
        case (DomainFailure e)
        let ?s2 = "emit (Caught (DomainFailure e)) xb"
        obtain rh ch xh where hd: "run_steps p handler False ?s2 = (rh, ch, xh)"
          by (cases "run_steps p handler False ?s2")
        have whole: "run_steps n2 (Try body handler # rest) called s =
            (case run_steps n2 handler False ?s2 of
               (None, c2, s2) \<Rightarrow> run_steps n2 rest c2 s2
             | (Some g, c2, s2) \<Rightarrow> (Some g, c2, s2))" for n2
          by (simp add: ball Some DomainFailure)
        show ?thesis
        proof (cases ch)
          case True
          have "rh = Some (ProtocolViolation m0) \<and>
              (\<forall>n2 n3. n2 xh = n3 xh \<longrightarrow>
                 run_steps n2 handler False ?s2 = run_steps n3 handler False ?s2) \<and>
              (\<forall>n2. fst (snd (run_steps n2 handler False ?s2)))"
            by (rule "7.IH"(3)[OF b[symmetric] Some DomainFailure refl hp, unfolded cbF, OF hd])
               (simp_all add: True)
          then have rh: "rh = Some (ProtocolViolation m0)"
            and ah: "\<And>n2 n3. n2 xh = n3 xh \<Longrightarrow>
                run_steps n2 handler False ?s2 = run_steps n3 handler False ?s2"
            and fh: "\<And>n2. fst (snd (run_steps n2 handler False ?s2))" by blast+
          from "7.prems"(2) b Some DomainFailure False hd rh
          have rx: "r = Some (ProtocolViolation m0)" "x = xh" by simp_all
          have agree: "run_steps n2 (Try body handler # rest) called s
              = run_steps n3 (Try body handler # rest) called s" if "n2 x = n3 x" for n2 n3
          proof -
            from that rx have "n2 xh = n3 xh" by simp
            then have eq: "run_steps n2 handler False ?s2 = run_steps n3 handler False ?s2"
              by (rule ah)
            show ?thesis unfolding whole by (rule then_agree[OF eq fh])
          qed
          have flag: "fst (snd (run_steps n2 (Try body handler # rest) called s))" for n2
          proof -
            obtain r1 c1 s1 where b3: "run_steps n2 handler False ?s2 = (r1, c1, s1)"
              by (cases "run_steps n2 handler False ?s2")
            from fh[of n2] b3 have c1: c1 by simp
            show ?thesis
            proof (cases r1)
              case None
              obtain r4 c4 s4 where rr: "run_steps n2 rest c1 s1 = (r4, c4, s4)"
                by (cases "run_steps n2 rest c1 s1")
              from run_steps_mono[OF rr] c1 have c4 by simp
              with b3 None rr show ?thesis unfolding whole by simp
            next
              case (Some g)
              with b3 c1 show ?thesis unfolding whole by simp
            qed
          qed
          from rx agree flag show ?thesis by blast
        next
          case False
          note chF = this
          from hd chF have hd0: "run_steps p handler False ?s2 = (rh, False, xh)" by simp
          have hall: "\<And>n2. run_steps n2 handler False ?s2 = (rh, False, xh)"
            by (rule run_steps_independent[OF hd0])
          show ?thesis
          proof (cases rh)
            case None
            with "7.prems"(2) b Some DomainFailure \<open>\<not> cb\<close> hd chF
            have run: "run_steps p rest False xh = (r, c', x)" by simp
            from chF have chE: "ch = False" by simp
            from hd cbF have hdc: "(rh, ch, xh) = run_steps p handler cb ?s2" by simp
            have "r = Some (ProtocolViolation m0) \<and>
                (\<forall>n2 n3. n2 x = n3 x \<longrightarrow> run_steps n2 rest False xh = run_steps n3 rest False xh) \<and>
                (\<forall>n2. fst (snd (run_steps n2 rest False xh)))"
              by (rule "7.IH"(4)[OF b[symmetric] Some DomainFailure refl hdc None refl hp,
                    unfolded chE, OF run]) (simp_all add: c')
            then have rr: "r = Some (ProtocolViolation m0)"
              and ar: "\<And>n2 n3. n2 x = n3 x \<Longrightarrow> run_steps n2 rest False xh = run_steps n3 rest False xh"
              and fr: "\<And>n2. fst (snd (run_steps n2 rest False xh))" by blast+
            have w: "run_steps n2 (Try body handler # rest) called s = run_steps n2 rest False xh" for n2
              unfolding whole by (simp add: hall None)
            show ?thesis unfolding w using rr ar fr by blast
          next
            case (Some g)
            with "7.prems"(2) b \<open>rb = Some f\<close> DomainFailure \<open>\<not> cb\<close> hd chF c'
            show ?thesis by simp
          qed
        qed
      qed
    qed
  qed
next
  case (8 p cond yes no rest called s)
  note hp = "8.prems"(1) and nc = "8.prems"(3) and c' = "8.prems"(4)
  let ?br = "if cond (ctx s) then yes else no"
  obtain rb cb xb where b: "run_steps p ?br called s = (rb, cb, xb)"
    by (cases "run_steps p ?br called s")
  have tail: "run_steps n2 st True y = run_steps n3 st True y" for n2 n3 st y
    by (rule run_steps_called) simp
  have whole: "run_steps n2 (Branch cond yes no # rest) called s =
      (case run_steps n2 ?br called s of
         (None, c2, s2) \<Rightarrow> run_steps n2 rest c2 s2
       | (Some g, c2, s2) \<Rightarrow> (Some g, c2, s2))" for n2
    by simp
  show ?case
  proof (cases cb)
    case True
    from "8.IH"(1)[OF hp b nc True]
    have rb: "rb = Some (ProtocolViolation m0)"
      and ab: "\<And>n2 n3. n2 xb = n3 xb \<Longrightarrow> run_steps n2 ?br called s = run_steps n3 ?br called s"
      and fb: "\<And>n2. fst (snd (run_steps n2 ?br called s))" by blast+
    from "8.prems"(2) b rb have rx: "r = Some (ProtocolViolation m0)" "x = xb" by simp_all
    have agree: "run_steps n2 (Branch cond yes no # rest) called s
        = run_steps n3 (Branch cond yes no # rest) called s" if "n2 x = n3 x" for n2 n3
    proof -
      from that rx have "n2 xb = n3 xb" by simp
      then have eq: "run_steps n2 ?br called s = run_steps n3 ?br called s" by (rule ab)
      show ?thesis unfolding whole by (rule then_agree[OF eq fb])
    qed
    have flag: "fst (snd (run_steps n2 (Branch cond yes no # rest) called s))" for n2
    proof -
      obtain r1 c1 s1 where b3: "run_steps n2 ?br called s = (r1, c1, s1)"
        by (cases "run_steps n2 ?br called s")
      from fb[of n2] b3 have c1: c1 by simp
      show ?thesis
      proof (cases r1)
        case None
        obtain r4 c4 s4 where rr: "run_steps n2 rest c1 s1 = (r4, c4, s4)"
          by (cases "run_steps n2 rest c1 s1")
        from run_steps_mono[OF rr] c1 have c4 by simp
        with b3 None rr show ?thesis unfolding whole by simp
      next
        case (Some g)
        with b3 c1 show ?thesis unfolding whole by simp
      qed
    qed
    from rx agree flag show ?thesis by blast
  next
    case False
    from False have cbF: "cb = False" by simp
    from b False have b0: "run_steps p ?br called s = (rb, False, xb)" by simp
    have ball: "\<And>n2. run_steps n2 ?br called s = (rb, False, xb)"
      by (rule run_steps_independent[OF b0])
    show ?thesis
    proof (cases rb)
      case None
      with "8.prems"(2) b False have run: "run_steps p rest False xb = (r, c', x)" by simp
      have "r = Some (ProtocolViolation m0) \<and>
          (\<forall>n2 n3. n2 x = n3 x \<longrightarrow> run_steps n2 rest False xb = run_steps n3 rest False xb) \<and>
          (\<forall>n2. fst (snd (run_steps n2 rest False xb)))"
        by (rule "8.IH"(2)[OF b[symmetric] None refl hp, unfolded cbF, OF run]) (simp_all add: c')
      then have rr: "r = Some (ProtocolViolation m0)"
        and ar: "\<And>n2 n3. n2 x = n3 x \<Longrightarrow> run_steps n2 rest False xb = run_steps n3 rest False xb"
        and fr: "\<And>n2. fst (snd (run_steps n2 rest False xb))" by blast+
      have w: "run_steps n2 (Branch cond yes no # rest) called s = run_steps n2 rest False xb" for n2
        unfolding whole by (simp add: ball None)
      show ?thesis unfolding w using rr ar fr by blast
    next
      case (Some g)
      with "8.prems"(2) b False c' show ?thesis by simp
    qed
  qed
qed

text \<open>
  An activation depends on the rest of the chain only through what the rest of the chain
  does in the state at which \<open>proceed\<close> is called, and not at all when \<open>proceed\<close> is not
  called.
\<close>

lemma proceeds_at_None:
  assumes "proceeds_at m s = None"
  shows "run_steps n m False s = run_steps n' m False s"
proof -
  obtain r c x where p: "run_steps probe m False s = (r, c, x)"
    by (cases "run_steps probe m False s")
  with assms have "c = False" by (simp add: proceeds_at_def split: if_splits)
  with p have p0: "run_steps probe m False s = (r, False, x)" by simp
  from run_steps_independent[OF p0, of n] run_steps_independent[OF p0, of n'] show ?thesis by simp
qed

lemma proceeds_at_Some:
  assumes "proceeds_at m s = Some x" and "n x = n' x"
  shows "run_steps n m False s = run_steps n' m False s"
proof -
  obtain r c y where p: "run_steps probe m False s = (r, c, y)"
    by (cases "run_steps probe m False s")
  with assms(1) have c: c and y: "y = x" by (simp_all add: proceeds_at_def split: if_splits)
  have hp: "\<forall>y. probe y = (Some (ProtocolViolation ''probe''), y)" by (simp add: probe_def)
  have nc: "\<not> False" by simp
  note cs = run_steps_call_state[where p = probe and ?m0.0 = "''probe''", OF hp p nc c]
  note ag = cs[THEN conjunct2, THEN conjunct1, rule_format]
  from y assms(2) have "n y = n' y" by simp
  then show ?thesis by (rule ag)
qed

lemma no_call_proceeds_at:
  assumes "run_steps n m False s = (r, False, sb)"
  shows "proceeds_at m s = None"
  using run_steps_independent[OF assms, of probe] by (simp add: proceeds_at_def)

lemma activation_append:
  "activation (xs @ ys) s = (case activation xs s of None \<Rightarrow> None | Some x \<Rightarrow> activation ys x)"
  by (induction xs arbitrary: s) (auto split: option.splits)

text \<open>
  A chain in which some middleware does not call \<open>proceed\<close> does not depend on what
  comes after that middleware, and does not call the terminal function.
\<close>

lemma compose_cut:
  "activation pre s = None \<Longrightarrow>
     compose (pre @ rest) h terminal s = compose (pre @ rest') h' terminal' s"
proof (induction pre arbitrary: s)
  case Nil
  then show ?case by simp
next
  case (Cons m ms)
  show ?case
  proof (cases "proceeds_at m s")
    case None
    from proceeds_at_None[OF None, of "compose (ms @ rest) h terminal" "compose (ms @ rest') h' terminal'"]
    show ?thesis by simp
  next
    case (Some x)
    with Cons.prems have "activation ms x = None" by simp
    from Cons.IH[OF this]
    have "compose (ms @ rest) h terminal x = compose (ms @ rest') h' terminal' x" .
    have k: "compose (ms @ rest) h terminal x = compose (ms @ rest') h' terminal' x" by fact
    from proceeds_at_Some[where n = "compose (ms @ rest) h terminal"
        and n' = "compose (ms @ rest') h' terminal'", OF Some k]
    show ?thesis by simp
  qed
qed

text \<open>
  A chain depends on what follows its first middleware only through what that does in
  the state in which it is activated.
\<close>

lemma compose_at_activation:
  "activation outer s = Some x \<Longrightarrow> compose rest h terminal x = compose rest' h' terminal' x \<Longrightarrow>
     compose (outer @ rest) h terminal s = compose (outer @ rest') h' terminal' s"
proof (induction outer arbitrary: s)
  case Nil
  then show ?case by simp
next
  case (Cons m ms)
  from Cons.prems(1) obtain x1 where p: "proceeds_at m s = Some x1" and a: "activation ms x1 = Some x"
    by (auto split: option.splits)
  have k: "compose (ms @ rest) h terminal x1 = compose (ms @ rest') h' terminal' x1"
    by (rule Cons.IH[OF a Cons.prems(2)])
  from proceeds_at_Some[where n = "compose (ms @ rest) h terminal"
      and n' = "compose (ms @ rest') h' terminal'", OF p k]
  show ?case by simp
qed

lemma compose_cut_calls:
  "activation pre s = None \<Longrightarrow>
     terminal_calls (trace (snd (compose (pre @ rest) h terminal s))) = terminal_calls (trace s)"
proof (induction pre arbitrary: s)
  case Nil
  then show ?case by simp
next
  case (Cons m ms)
  let ?k = "compose (ms @ rest) h terminal"
  obtain r c s' where run: "run_steps ?k m False s = (r, c, s')"
    by (cases "run_steps ?k m False s")
  then have out: "snd (compose ((m # ms) @ rest) h terminal s) = s'" by simp
  show ?case
  proof (cases "proceeds_at m s")
    case None
    from proceeds_at_None[OF None, of ?k probe] run
    have p: "run_steps probe m False s = (r, c, s')" by simp
    with None have "c = False" by (simp add: proceeds_at_def split: if_splits)
    with run have "run_steps ?k m False s = (r, False, s')" by simp
    from run_steps_without_next[OF this] out show ?thesis by simp
  next
    case (Some x)
    with Cons.prems have "activation ms x = None" by simp
    from Cons.IH[OF this]
    have ih: "terminal_calls (trace (snd (?k x))) = terminal_calls (trace x)" .
    let ?k' = "\<lambda>y. if y = x then ?k x else (None, y)"
    have agree: "?k x = ?k' x" by simp
    from proceeds_at_Some[where n = ?k and n' = ?k', OF Some agree] run
    have run': "run_steps ?k' m False s = (r, c, s')" by simp
    have call: "\<forall>s r s'. ?k' s = (r, s') \<longrightarrow>
        (\<exists>new. trace s' = trace s @ new \<and> terminal_calls new = 0)"
    proof (intro allI impI)
      fix y ry y'
      assume k: "?k' y = (ry, y')"
      show "\<exists>new. trace y' = trace y @ new \<and> terminal_calls new = 0"
      proof (cases "y = x")
        case True
        with k have kx: "?k x = (ry, y')" by simp
        from compose_settle[OF kx] obtain new where n: "trace y' = trace x @ new" by blast
        from ih kx n have "terminal_calls new = 0" by simp
        with n True show ?thesis by simp
      next
        case False
        with k show ?thesis by simp
      qed
    qed
    have "\<exists>new. trace s' = trace s @ new \<and> terminal_calls new = 0"
      by (rule run_steps_new[where Q = "\<lambda>c c' new r. terminal_calls new = 0", OF _ _ _ _ _ _ call run'])
        simp_all
    with out show ?thesis by auto
  qed
qed

lemma put_prop_other:
  "name \<noteq> field \<Longrightarrow> put_prop strict c name v = (e, x) \<Longrightarrow> lookup_data x field = lookup_data c field"
  by (auto simp: put_prop_def lookup_data_def split: if_splits option.splits)

text \<open>The middleware below a stack of onions is activated after their before-sections.\<close>

lemma activation_onion:
  "\<forall>sec \<in> set secs. list_all plain_step (fst sec) \<Longrightarrow>
     activation (map onion secs) s = Some (run_befores secs s)"
proof (induction secs arbitrary: s)
  case Nil
  then show ?case by (simp add: run_befores_def)
next
  case (Cons sec secs)
  then have pb: "list_all plain_step (fst sec)" by simp
  have "proceeds_at (onion sec) s = Some (run_plain (fst sec) s)"
    by (simp add: proceeds_at_def onion_def run_steps_append run_steps_plain[OF pb] probe_def)
  moreover have "run_befores (sec # secs) s = run_befores secs (run_plain (fst sec) s)"
    by (simp add: run_befores_def)
  ultimately show ?case using Cons by simp
qed


text \<open>
  The proof rule for one activation again, for steps that never assign one given field:
  the relation need not hold of an assignment to that field.
\<close>

lemma never_assigns_append:
  "never_assigns field (xs @ ys) = (never_assigns field xs \<and> never_assigns field ys)"
  by (induction field xs rule: never_assigns.induct) auto

lemma run_steps_rel_keeping:
  assumes skip: "\<And>c s. R c s None c s"
    and seq: "\<And>c s c1 s1 r c2 s2. R c s None c1 s1 \<Longrightarrow> R c1 s1 r c2 s2 \<Longrightarrow> R c s r c2 s2"
    and emit: "\<And>c s e. R c s None c (emit (MiddlewareEvent e) s)"
    and await: "\<And>c s. R c s None c (s\<lparr> suspensions := Suc (suspensions s) \<rparr>)"
    and set_ok: "\<And>c s name v x. name \<noteq> field \<Longrightarrow> put_prop True (ctx s) name v = (None, x) \<Longrightarrow>
        R c s None c (s\<lparr> ctx := x \<rparr>)"
    and set_fail: "\<And>c s name v e x. name \<noteq> field \<Longrightarrow> put_prop True (ctx s) name v = (Some e, x) \<Longrightarrow>
        R c s (Some (DomainFailure e)) c (emit (Raised (DomainFailure e)) (s\<lparr> ctx := x \<rparr>))"
    and throw: "\<And>c s e. R c s (Some (DomainFailure e)) c (emit (Raised (DomainFailure e)) s)"
    and guard: "\<And>s. R True s (Some (ProtocolViolation ''next() called multiple times'')) True
        (emit (Raised (ProtocolViolation ''next() called multiple times'')) s)"
    and catch: "\<And>c s e c1 s1 r c2 s2. R c s (Some (DomainFailure e)) c1 s1 \<Longrightarrow>
        R c1 (emit (Caught (DomainFailure e)) s1) r c2 s2 \<Longrightarrow> R c s r c2 s2"
  shows "never_assigns field steps \<Longrightarrow> \<forall>s r s'. next s = (r, s') \<longrightarrow> R False s r True s' \<Longrightarrow>
     run_steps next steps called s = (r, called', s') \<Longrightarrow> R called s r called' s'"
proof (induction "next" steps called s arbitrary: r called' s' rule: run_steps.induct)
  case (1 "next" called s)
  from "1.prems"(3) show ?case using skip by auto
next
  case (2 "next" e rest called s)
  from "2.prems"(1) have na: "never_assigns field rest" by simp
  from "2.IH"[OF na "2.prems"(2) "2.prems"(3)[simplified]] show ?case using seq emit by blast
next
  case (3 "next" rest called s)
  from "3.prems"(1) have na: "never_assigns field rest" by simp
  from "3.IH"[OF na "3.prems"(2) "3.prems"(3)[simplified]] show ?case using seq await by blast
next
  case (4 "next" name v rest called s)
  from "4.prems"(1) have na: "never_assigns field rest" and ne: "name \<noteq> field" by simp_all
  obtain x y where p: "put_prop True (ctx s) name v = (x, y)" by (cases "put_prop True (ctx s) name v")
  show ?case
  proof (cases x)
    case None
    with "4.prems" p have "run_steps next rest called (s\<lparr>ctx := y\<rparr>) = (r, called', s')" by simp
    from "4.IH"[OF p[symmetric] None na "4.prems"(2) this] set_ok[of name s v y called] ne p None
    show ?thesis using seq by blast
  next
    case (Some e)
    with "4.prems" p set_fail[of name s v e y called] ne show ?thesis by auto
  qed
next
  case (5 "next" e rest called s)
  from "5.prems"(3) show ?case using throw by auto
next
  case (6 "next" rest called s)
  from "6.prems"(1) have na: "never_assigns field rest" by simp
  show ?case
  proof (cases called)
    case True
    with "6.prems"(3) show ?thesis using guard by auto
  next
    case False
    obtain r1 s1 where n: "next s = (r1, s1)" by (cases "next s")
    from "6.prems"(2) n have call: "R False s r1 True s1" by blast
    show ?thesis
    proof (cases r1)
      case (Some f)
      with "6.prems"(3) False n call show ?thesis by auto
    next
      case None
      with "6.prems"(3) False n have run: "run_steps next rest True s1 = (r, called', s')" by simp
      from call None False have c0: "R called s None True s1" by simp
      from seq[OF c0 "6.IH"[OF False n[symmetric] None na "6.prems"(2) run]] show ?thesis .
    qed
  qed
next
  case (7 "next" body handler rest called s)
  from "7.prems"(1) have nb: "never_assigns field body" and nh: "never_assigns field handler"
    and na: "never_assigns field rest" by simp_all
  obtain r1 c1 s1 where b: "run_steps next body called s = (r1, c1, s1)"
    by (cases "run_steps next body called s")
  note R1 = "7.IH"(1)[OF nb "7.prems"(2) b]
  show ?case
  proof (cases r1)
    case None
    with "7.prems"(3) b have run: "run_steps next rest c1 s1 = (r, called', s')" by simp
    from "7.IH"(2)[OF b[symmetric] None refl na "7.prems"(2) run] R1 None show ?thesis using seq by blast
  next
    case (Some f)
    show ?thesis
    proof (cases f)
      case (ProtocolViolation m)
      with "7.prems"(3) b Some R1 show ?thesis by auto
    next
      case (DomainFailure e)
      let ?s2 = "emit (Caught (DomainFailure e)) s1"
      obtain r3 c3 s3 where hd: "run_steps next handler c1 ?s2 = (r3, c3, s3)"
        by (cases "run_steps next handler c1 ?s2")
      note R3 = "7.IH"(3)[OF b[symmetric] Some DomainFailure refl nh "7.prems"(2) hd]
      from R1 Some DomainFailure have R1': "R called s (Some (DomainFailure e)) c1 s1" by simp
      have R13: "R called s r3 c3 s3" using catch[OF R1' R3] .
      show ?thesis
      proof (cases r3)
        case None
        with "7.prems"(3) b Some DomainFailure hd
        have run: "run_steps next rest c3 s3 = (r, called', s')" by simp
        from "7.IH"(4)[OF b[symmetric] \<open>r1 = Some f\<close> DomainFailure refl hd[symmetric] None refl na "7.prems"(2) run]
          R13 None show ?thesis using seq by blast
      next
        case (Some g)
        with "7.prems"(3) b \<open>r1 = Some f\<close> DomainFailure hd have "r = Some g" "called' = c3" "s' = s3"
          by simp_all
        with R13 Some show ?thesis by auto
      qed
    qed
  qed
next
  case (8 "next" cond yes no rest called s)
  from "8.prems"(1) have nb: "never_assigns field (if cond (ctx s) then yes else no)"
    and na: "never_assigns field rest" by simp_all
  obtain r1 c1 s1 where b: "run_steps next (if cond (ctx s) then yes else no) called s = (r1, c1, s1)"
    by (cases "run_steps next (if cond (ctx s) then yes else no) called s")
  note R1 = "8.IH"(1)[OF nb "8.prems"(2) b]
  show ?case
  proof (cases r1)
    case None
    with "8.prems"(3) b have run: "run_steps next rest c1 s1 = (r, called', s')" by simp
    from "8.IH"(2)[OF b[symmetric] None refl na "8.prems"(2) run] R1 None show ?thesis using seq by blast
  next
    case (Some f)
    with "8.prems"(3) b R1 show ?thesis by auto
  qed
qed

text \<open>
  A middleware that never assigns a field leaves it as its \<open>proceed\<close> returned it, and
  so does a chain of such middleware.
\<close>

lemma run_steps_keeps_field:
  assumes na: "never_assigns field steps"
    and call: "\<forall>s r s'. next s = (r, s') \<longrightarrow> lookup_data (ctx s') field = V"
    and run: "run_steps next steps called s = (r, called', s')"
  shows "lookup_data (ctx s') field = (if called' \<and> \<not> called then V else lookup_data (ctx s) field)"
proof -
  let ?R = "\<lambda>c s (r :: failure option) c' s'. (c \<longrightarrow> c') \<and>
      lookup_data (ctx s') field = (if c' \<and> \<not> c then V else lookup_data (ctx s) field)"
  from call have call': "\<forall>s r s'. next s = (r, s') \<longrightarrow> ?R False s r True s'" by simp
  have "?R called s r called' s'"
  proof (rule run_steps_rel_keeping[where R = ?R and field = field, OF _ _ _ _ _ _ _ _ _ na call' run])
    show "?R c s None c s" for c s by simp
  next
    show "?R c s None c1 s1 \<Longrightarrow> ?R c1 s1 r c2 s2 \<Longrightarrow> ?R c s r c2 s2" for c s c1 s1 r c2 s2
      by (cases c; cases c1; cases c2; simp)
  next
    show "?R c s None c (emit (MiddlewareEvent e) s)" for c s e by (simp add: emit_def)
  next
    show "?R c s None c (s\<lparr> suspensions := Suc (suspensions s) \<rparr>)" for c s by simp
  next
    show "name \<noteq> field \<Longrightarrow> put_prop True (ctx s) name v = (None, x) \<Longrightarrow> ?R c s None c (s\<lparr> ctx := x \<rparr>)"
      for c s name v x using put_prop_other[of name field True "ctx s" v None x] by simp
  next
    show "name \<noteq> field \<Longrightarrow> put_prop True (ctx s) name v = (Some e, x) \<Longrightarrow>
        ?R c s (Some (DomainFailure e)) c (emit (Raised (DomainFailure e)) (s\<lparr> ctx := x \<rparr>))"
      for c s name v e x using put_prop_other[of name field True "ctx s" v "Some e" x]
      by (simp add: emit_def)
  next
    show "?R c s (Some (DomainFailure e)) c (emit (Raised (DomainFailure e)) s)" for c s e
      by (simp add: emit_def)
  next
    show "?R True s (Some (ProtocolViolation ''next() called multiple times'')) True
        (emit (Raised (ProtocolViolation ''next() called multiple times'')) s)" for s
      by (simp add: emit_def)
  next
    show "?R c s (Some (DomainFailure e)) c1 s1 \<Longrightarrow>
        ?R c1 (emit (Caught (DomainFailure e)) s1) r c2 s2 \<Longrightarrow> ?R c s r c2 s2" for c s e c1 s1 r c2 s2
      by (cases c; cases c1; cases c2; simp add: emit_def)
  qed
  then show ?thesis by simp
qed

lemma proceeds_keeps_field:
  assumes na: "never_assigns field m" and p: "proceeds_at m s = Some x"
  shows "lookup_data (ctx (snd (snd (run_steps n m False s)))) field = lookup_data (ctx (snd (n x))) field"
proof -
  let ?n' = "\<lambda>y :: invocation. n x"
  have agree: "n x = ?n' x" by simp
  note eq = proceeds_at_Some[where n = n and n' = ?n', OF p agree]
  obtain r c s' where run: "run_steps ?n' m False s = (r, c, s')"
    by (cases "run_steps ?n' m False s")
  obtain rp cp y where pr: "run_steps probe m False s = (rp, cp, y)"
    by (cases "run_steps probe m False s")
  with p have cp: cp by (simp add: proceeds_at_def split: if_splits)
  have hp: "\<forall>y. probe y = (Some (ProtocolViolation ''probe''), y)" by (simp add: probe_def)
  have nc: "\<not> False" by simp
  note cs = run_steps_call_state[where p = probe and ?m0.0 = "''probe''", OF hp pr nc cp]
  note fl = cs[THEN conjunct2, THEN conjunct2, rule_format]
  from fl[of ?n'] run have c: c by simp
  have call: "\<forall>s r s'. ?n' s = (r, s') \<longrightarrow> lookup_data (ctx s') field = lookup_data (ctx (snd (n x))) field"
    by auto
  from run_steps_keeps_field[OF na call run] c
  have "lookup_data (ctx s') field = lookup_data (ctx (snd (n x))) field" by simp
  with eq run show ?thesis by simp
qed

lemma compose_keeps_field:
  "\<forall>m \<in> set outer. never_assigns field m \<Longrightarrow> activation outer s = Some x \<Longrightarrow>
     lookup_data (ctx (snd (compose (outer @ rest) h terminal s))) field =
     lookup_data (ctx (snd (compose rest h terminal x))) field"
proof (induction outer arbitrary: s)
  case Nil
  then show ?case by simp
next
  case (Cons m ms)
  from Cons.prems(2) obtain x1 where p: "proceeds_at m s = Some x1" and a: "activation ms x1 = Some x"
    by (auto split: option.splits)
  from Cons.prems(1) have na: "never_assigns field m" and nas: "\<forall>m \<in> set ms. never_assigns field m"
    by simp_all
  have "snd (compose ((m # ms) @ rest) h terminal s) = snd (snd (run_steps (compose (ms @ rest) h terminal) m False s))"
    by (simp split: prod.splits)
  with proceeds_keeps_field[OF na p, of "compose (ms @ rest) h terminal"] Cons.IH[OF nas a]
  show ?case by simp
qed

text \<open>
  Claim C2, as amended. In a chain \<open>outer @ b # inner\<close> let the middleware \<open>b\<close> be
  activated, in the state \<open>x\<close> (each middleware of \<open>outer\<close>, whatever its steps are, has
  called \<open>proceed\<close>), and let it return without having called \<open>proceed\<close>, leaving the
  state \<open>sb\<close>. Then the run of the composed callable is the same whatever middleware
  follow \<open>b\<close> in the sequence and whatever the terminal function is, so none of them
  executes, and the trace holds no call of the terminal function that was not there
  before. As to the result: if no middleware of \<open>outer\<close> contains an assignment to
  \<open>context.result\<close>, then \<open>context.result\<close> is in the end what \<open>b\<close> left, and the
  composed callable, when it resolves, resolves to it. And if the middleware before \<open>b\<close>
  are onion middleware whose sections are plain and whose after-sections do not assign
  \<open>context.result\<close>, then \<open>b\<close> is activated after their before-sections, and the
  composed callable resolves, to the \<open>context.result\<close> that \<open>b\<close> left.
\<close>

theorem short_circuit_result:
  "(activation outer s = Some x \<and>
    run_steps (compose inner h terminal) b False x = (None, False, sb) \<longrightarrow>
      (\<forall>inner' terminal'. compose (outer @ b # inner') h terminal' s = compose (outer @ b # inner) h terminal s) \<and>
      terminal_calls (trace (snd (compose (outer @ b # inner) h terminal s))) = terminal_calls (trace s) \<and>
      ((\<forall>m \<in> set outer. never_assigns ''result'' m) \<longrightarrow>
         lookup_data (ctx (snd (compose (outer @ b # inner) h terminal s))) ''result''
           = lookup_data (ctx sb) ''result'' \<and>
         (fst (compose (outer @ b # inner) h terminal s) = None \<longrightarrow>
            composed_result (compose (outer @ b # inner) h terminal s)
              = Inr (lookup_data (ctx sb) ''result'')))) \<and>
   ((\<forall>sec \<in> set secs. list_all plain_step (fst sec) \<and> list_all plain_step (snd sec) \<and>
                        list_all keeps_result (snd sec)) \<and>
    run_steps (compose inner h terminal) b False (run_befores secs s) = (None, False, sb) \<longrightarrow>
      activation (map onion secs) s = Some (run_befores secs s) \<and>
      compose (map onion secs @ b # inner) h terminal s = (None, run_afters secs sb) \<and>
      composed_result (compose (map onion secs @ b # inner) h terminal s)
        = Inr (lookup_data (ctx sb) ''result''))"
proof (intro conjI impI)
  assume "activation outer s = Some x \<and>
    run_steps (compose inner h terminal) b False x = (None, False, sb)"
  then have a: "activation outer s = Some x"
    and b: "run_steps (compose inner h terminal) b False x = (None, False, sb)" by simp_all
  from no_call_proceeds_at[OF b] a have cut: "activation (outer @ [b]) s = None"
    by (simp add: activation_append)
  show "\<forall>inner' terminal'. compose (outer @ b # inner') h terminal' s = compose (outer @ b # inner) h terminal s"
  proof (intro allI)
    fix inner' terminal'
    from compose_cut[OF cut, of inner' h terminal' inner h terminal]
    show "compose (outer @ b # inner') h terminal' s = compose (outer @ b # inner) h terminal s" by simp
  qed
  show "terminal_calls (trace (snd (compose (outer @ b # inner) h terminal s))) = terminal_calls (trace s)"
    using compose_cut_calls[OF cut, of inner h terminal] by simp
  assume na: "\<forall>m \<in> set outer. never_assigns ''result'' m"
  from b have "compose (b # inner) h terminal x = (None, sb)" by simp
  with compose_keeps_field[OF na a, of "b # inner" h terminal]
  show res: "lookup_data (ctx (snd (compose (outer @ b # inner) h terminal s))) ''result''
           = lookup_data (ctx sb) ''result''" by simp
  assume "fst (compose (outer @ b # inner) h terminal s) = None"
  with res show "composed_result (compose (outer @ b # inner) h terminal s)
              = Inr (lookup_data (ctx sb) ''result'')"
    by (simp add: composed_result_def)
next
  assume "(\<forall>sec \<in> set secs. list_all plain_step (fst sec) \<and> list_all plain_step (snd sec) \<and>
                        list_all keeps_result (snd sec)) \<and>
    run_steps (compose inner h terminal) b False (run_befores secs s) = (None, False, sb)"
  then have p: "\<forall>sec \<in> set secs. list_all plain_step (fst sec) \<and> list_all plain_step (snd sec)"
    and pb: "\<forall>sec \<in> set secs. list_all plain_step (fst sec)"
    and k: "\<forall>sec \<in> set secs. list_all plain_step (snd sec) \<and> list_all keeps_result (snd sec)"
    and b: "run_steps (compose inner h terminal) b False (run_befores secs s) = (None, False, sb)"
    by blast+
  show "activation (map onion secs) s = Some (run_befores secs s)"
    by (rule activation_onion[OF pb])
  from b have "compose (b # inner) h terminal (run_befores secs s) = (None, sb)" by simp
  with compose_onion[OF p, of "b # inner" h terminal s]
  show out: "compose (map onion secs @ b # inner) h terminal s = (None, run_afters secs sb)" by simp
  show "composed_result (compose (map onion secs @ b # inner) h terminal s)
        = Inr (lookup_data (ctx sb) ''result'')"
    unfolding out by (simp add: composed_result_def lookup_result_run_afters[OF k])
qed

lemmas eval_defs = terminal_call_def spread_arguments_def get_prop_def lookup_data_def start_def
  call_context_def args_heap_def ok_terminal_def failing_terminal_def emit_def put_prop_def
  run_befores_def run_afters_def run_plain_def onion_def composed_result_def

theorem short_circuit_result_witness:
  "activation [guarding_middleware] start = Some (emit (MiddlewareEvent ''A-before'') start) \<and>
   composed_result (compose [guarding_middleware, short_circuit_middleware,
       onion ([Emit ''C-before''], [Emit ''C-after''])] args_heap ok_terminal start) = Inr (VNum 1) \<and>
   terminal_calls (trace (snd (compose [guarding_middleware, short_circuit_middleware,
       onion ([Emit ''C-before''], [Emit ''C-after''])] args_heap ok_terminal start))) = 0 \<and>
   compose [guarding_middleware, short_circuit_middleware] args_heap failing_terminal start
     = compose [guarding_middleware, short_circuit_middleware,
         onion ([Emit ''C-before''], [Emit ''C-after''])] args_heap ok_terminal start \<and>
   terminal_calls (trace (snd (compose [overwriting_middleware, short_circuit_middleware,
       onion ([Emit ''C-before''], [Emit ''C-after''])] args_heap ok_terminal start))) = 0 \<and>
   compose [overwriting_middleware, short_circuit_middleware] args_heap failing_terminal start
     = compose [overwriting_middleware, short_circuit_middleware,
         onion ([Emit ''C-before''], [Emit ''C-after''])] args_heap ok_terminal start \<and>
   terminal_calls (trace (snd (compose [catching_middleware, short_circuit_middleware,
       onion ([Emit ''C-before''], [Emit ''C-after''])] args_heap ok_terminal start))) = 0 \<and>
   compose [catching_middleware, short_circuit_middleware] args_heap failing_terminal start
     = compose [catching_middleware, short_circuit_middleware,
         onion ([Emit ''C-before''], [Emit ''C-after''])] args_heap ok_terminal start \<and>
   composed_result (compose (map onion logging_sections @ short_circuit_middleware #
       [onion ([Emit ''C-before''], [Emit ''C-after''])]) args_heap ok_terminal start) = Inr (VNum 1)"
proof -
  let ?inner = "[onion ([Emit ''C-before''], [Emit ''C-after''])]"
  let ?x = "emit (MiddlewareEvent ''A-before'') start"
  have a1: "activation [guarding_middleware] start = Some ?x"
    by (simp add: guarding_middleware_def proceeds_at_def probe_def emit_def)
  obtain sb1 where b1: "run_steps (compose ?inner args_heap ok_terminal) short_circuit_middleware False ?x
        = (None, False, sb1)"
    and r1: "lookup_data (ctx sb1) ''result'' = VNum 1"
    by (simp add: short_circuit_middleware_def eval_defs)
  have n1: "\<forall>m \<in> set [guarding_middleware]. never_assigns ''result'' m"
    by (simp add: guarding_middleware_def)
  have f1: "fst (compose ([guarding_middleware] @ short_circuit_middleware # ?inner) args_heap ok_terminal start) = None"
    by (simp add: guarding_middleware_def short_circuit_middleware_def eval_defs)
  note i1 = short_circuit_result[where outer = "[guarding_middleware]" and s = start and x = ?x
      and inner = ?inner and h = args_heap and terminal = ok_terminal and b = short_circuit_middleware
      and sb = sb1 and secs = "[]", THEN conjunct1, rule_format, OF conjI, OF a1 b1]
  from i1 n1 f1 r1
  have g: "composed_result (compose ([guarding_middleware] @ short_circuit_middleware # ?inner)
             args_heap ok_terminal start) = Inr (VNum 1)"
    and gt: "terminal_calls (trace (snd (compose ([guarding_middleware] @ short_circuit_middleware # ?inner)
             args_heap ok_terminal start))) = terminal_calls (trace start)"
    and gi: "compose ([guarding_middleware] @ short_circuit_middleware # []) args_heap failing_terminal start
            = compose ([guarding_middleware] @ short_circuit_middleware # ?inner) args_heap ok_terminal start"
    by simp_all
  have a2: "activation [overwriting_middleware] start = Some start"
    by (simp add: overwriting_middleware_def proceeds_at_def probe_def)
  obtain sb2 where b2: "run_steps (compose ?inner args_heap ok_terminal) short_circuit_middleware False start
        = (None, False, sb2)"
    by (simp add: short_circuit_middleware_def eval_defs)
  note i2 = short_circuit_result[where outer = "[overwriting_middleware]" and s = start and x = start
      and inner = ?inner and h = args_heap and terminal = ok_terminal and b = short_circuit_middleware
      and sb = sb2 and secs = "[]", THEN conjunct1, rule_format, OF conjI, OF a2 b2]
  from i2
  have ot: "terminal_calls (trace (snd (compose ([overwriting_middleware] @ short_circuit_middleware # ?inner)
             args_heap ok_terminal start))) = terminal_calls (trace start)"
    and oi: "compose ([overwriting_middleware] @ short_circuit_middleware # []) args_heap failing_terminal start
            = compose ([overwriting_middleware] @ short_circuit_middleware # ?inner) args_heap ok_terminal start"
    by simp_all
  have a4: "activation [catching_middleware] start = Some start"
    by (simp add: catching_middleware_def proceeds_at_def probe_def)
  note i4 = short_circuit_result[where outer = "[catching_middleware]" and s = start and x = start
      and inner = ?inner and h = args_heap and terminal = ok_terminal and b = short_circuit_middleware
      and sb = sb2 and secs = "[]", THEN conjunct1, rule_format, OF conjI, OF a4 b2]
  from i4
  have ct: "terminal_calls (trace (snd (compose ([catching_middleware] @ short_circuit_middleware # ?inner)
             args_heap ok_terminal start))) = terminal_calls (trace start)"
    and ci: "compose ([catching_middleware] @ short_circuit_middleware # []) args_heap failing_terminal start
            = compose ([catching_middleware] @ short_circuit_middleware # ?inner) args_heap ok_terminal start"
    by simp_all
  have secs: "\<forall>sec \<in> set logging_sections. list_all plain_step (fst sec) \<and> list_all plain_step (snd sec) \<and>
                                   list_all keeps_result (snd sec)"
    by (simp add: logging_sections_def)
  obtain sb3 where b3: "run_steps (compose ?inner args_heap ok_terminal) short_circuit_middleware False
         (run_befores logging_sections start) = (None, False, sb3)"
    and r3: "lookup_data (ctx sb3) ''result'' = VNum 1"
    by (simp add: short_circuit_middleware_def logging_sections_def eval_defs)
  note i3 = short_circuit_result[where outer = "[]" and s = start and x = start
      and inner = ?inner and h = args_heap and terminal = ok_terminal and b = short_circuit_middleware
      and sb = sb3 and secs = logging_sections, THEN conjunct2, rule_format, OF conjI, OF secs b3]
  from i3[THEN conjunct2, THEN conjunct2] r3
  have l: "composed_result (compose (map onion logging_sections @ short_circuit_middleware # ?inner)
             args_heap ok_terminal start) = Inr (VNum 1)"
    by simp
  have t0: "terminal_calls (trace start) = 0" by (simp add: start_def)
  from a1 g gt gi ot oi ct ci l t0 show ?thesis by simp
qed

text \<open>
  Claim C2 as stated fails when an enclosing middleware assigns \<open>context.result\<close> after
  its \<open>proceed\<close> returned: the middleware below it returns without calling \<open>proceed\<close>,
  leaving \<open>result\<close> at 1, and the composed callable resolves to 9.
\<close>

theorem short_circuit_result_counterexample:
  "fst (run_steps (compose [onion ([Emit ''C-before''], [Emit ''C-after''])] args_heap ok_terminal)
         short_circuit_middleware False start) = None \<and>
   fst (snd (run_steps (compose [onion ([Emit ''C-before''], [Emit ''C-after''])] args_heap ok_terminal)
         short_circuit_middleware False start)) = False \<and>
   lookup_data (ctx (snd (snd (run_steps (compose [onion ([Emit ''C-before''], [Emit ''C-after''])] args_heap ok_terminal)
         short_circuit_middleware False start)))) ''result'' = VNum 1 \<and>
   composed_result (compose [overwriting_middleware, short_circuit_middleware,
                       onion ([Emit ''C-before''], [Emit ''C-after''])] args_heap ok_terminal start)
     = Inr (VNum 9)"
  by (simp add: short_circuit_middleware_def overwriting_middleware_def eval_defs)

subsection \<open>Failures\<close>

text \<open>
  Claim C4, as amended. For every chain, the outcome of the composed callable is the
  failure that was raised and not caught, exactly as raised, or success when every raised
  failure was caught. Below plain onion middleware, which do not catch, a failure of the
  rest of the chain (the terminal function or a middleware) is the failure of the
  composed callable, unchanged. When a middleware below plain onion middleware whose
  after-sections leave \<open>context.result\<close> alone catches the \<open>DomainFailure\<close> of the rest of
  the chain around its \<open>proceed\<close> and its handler and remaining steps complete, the
  composed callable resolves to the \<open>context.result\<close> that this middleware left.
\<close>

theorem failure_propagation:
  "(compose ms h terminal s = (r, s') \<longrightarrow>
      (\<exists>new. trace s' = trace s @ new \<and> settle None new = Some r)) \<and>
   ((\<forall>sec \<in> set secs. list_all plain_step (fst sec) \<and> list_all plain_step (snd sec)) \<and>
    compose inner h terminal (run_befores secs s) = (Some f, sf) \<longrightarrow>
      compose (map onion secs @ inner) h terminal s = (Some f, sf)) \<and>
   ((\<forall>sec \<in> set secs. list_all plain_step (fst sec) \<and> list_all plain_step (snd sec) \<and>
                        list_all keeps_result (snd sec)) \<and>
    list_all plain_step pre \<and>
    compose inner h terminal (run_plain pre (run_befores secs s)) = (Some (DomainFailure e), sf) \<and>
    run_steps (compose inner h terminal) (handler @ post) True (emit (Caught (DomainFailure e)) sf)
      = (None, c, sm) \<longrightarrow>
      compose (map onion secs @ (pre @ Try [Proceed] handler # post) # inner) h terminal s
        = (None, run_afters secs sm) \<and>
      composed_result (None, run_afters secs sm) = Inr (lookup_data (ctx sm) ''result''))"
proof (intro conjI impI)
  assume "compose ms h terminal s = (r, s')"
  then show "\<exists>new. trace s' = trace s @ new \<and> settle None new = Some r"
    by (rule compose_settle)
next
  assume a: "(\<forall>sec \<in> set secs. list_all plain_step (fst sec) \<and> list_all plain_step (snd sec)) \<and>
    compose inner h terminal (run_befores secs s) = (Some f, sf)"
  then have p: "\<forall>sec \<in> set secs. list_all plain_step (fst sec) \<and> list_all plain_step (snd sec)"
    and i: "compose inner h terminal (run_befores secs s) = (Some f, sf)" by blast+
  from compose_onion[OF p, of inner h terminal s] i
  show "compose (map onion secs @ inner) h terminal s = (Some f, sf)" by simp
next
  assume a: "(\<forall>sec \<in> set secs. list_all plain_step (fst sec) \<and> list_all plain_step (snd sec) \<and>
                        list_all keeps_result (snd sec)) \<and>
    list_all plain_step pre \<and>
    compose inner h terminal (run_plain pre (run_befores secs s)) = (Some (DomainFailure e), sf) \<and>
    run_steps (compose inner h terminal) (handler @ post) True (emit (Caught (DomainFailure e)) sf)
      = (None, c, sm)"
  then have p: "\<forall>sec \<in> set secs. list_all plain_step (fst sec) \<and> list_all plain_step (snd sec)"
    and k: "\<forall>sec \<in> set secs. list_all plain_step (snd sec) \<and> list_all keeps_result (snd sec)"
    and pp: "list_all plain_step pre"
    and i: "compose inner h terminal (run_plain pre (run_befores secs s)) = (Some (DomainFailure e), sf)"
    and hp: "run_steps (compose inner h terminal) (handler @ post) True (emit (Caught (DomainFailure e)) sf)
      = (None, c, sm)" by blast+
  have "run_steps (compose inner h terminal) (pre @ Try [Proceed] handler # post) False (run_befores secs s)
      = (None, c, sm)"
    using i hp
    by (simp add: run_steps_append[of _ pre] run_steps_plain[OF pp] run_steps_append[of _ handler]
        split: prod.splits option.splits)
  then have "compose ((pre @ Try [Proceed] handler # post) # inner) h terminal (run_befores secs s) = (None, sm)"
    by simp
  with compose_onion[OF p, of "(pre @ Try [Proceed] handler # post) # inner" h terminal s]
  show "compose (map onion secs @ (pre @ Try [Proceed] handler # post) # inner) h terminal s
        = (None, run_afters secs sm)" by simp
  show "composed_result (None, run_afters secs sm) = Inr (lookup_data (ctx sm) ''result'')"
    by (simp add: composed_result_def lookup_result_run_afters[OF k])
qed

theorem failure_propagation_witness:
  "fst (compose (map onion abc_sections) args_heap failing_terminal start)
     = Some (DomainFailure (Error ''boom'')) \<and>
   settle None (trace (snd (compose (map onion abc_sections) args_heap failing_terminal start)))
     = Some (Some (DomainFailure (Error ''boom''))) \<and>
   composed_result (compose (map onion logging_sections @ [catching_middleware])
       args_heap failing_terminal start) = Inr (VNum 1)"
proof -
  note fp = failure_propagation[where h = args_heap and terminal = failing_terminal and s = start]
  have p: "\<forall>sec \<in> set abc_sections. list_all plain_step (fst sec) \<and> list_all plain_step (snd sec)"
    by (simp add: abc_sections_def)
  obtain sf where i: "compose [] args_heap failing_terminal (run_befores abc_sections start)
       = (Some (DomainFailure (Error ''boom'')), sf)"
    by (simp add: abc_sections_def eval_defs)
  from fp[where secs = abc_sections and inner = "[]" and f = "DomainFailure (Error ''boom'')" and sf = sf,
      THEN conjunct2, THEN conjunct1] p i
  have run: "compose (map onion abc_sections) args_heap failing_terminal start
       = (Some (DomainFailure (Error ''boom'')), sf)" by simp
  from fp[where ms = "map onion abc_sections" and r = "Some (DomainFailure (Error ''boom''))" and s' = sf,
      THEN conjunct1] run
  have st: "settle None (trace sf) = Some (Some (DomainFailure (Error ''boom'')))"
    by (auto simp: start_def)
  have k: "\<forall>sec \<in> set logging_sections. list_all plain_step (fst sec) \<and> list_all plain_step (snd sec) \<and>
                        list_all keeps_result (snd sec)"
    by (simp add: logging_sections_def)
  obtain sf2 where i2: "compose [] args_heap failing_terminal (run_plain [] (run_befores logging_sections start))
       = (Some (DomainFailure (Error ''boom'')), sf2)"
    by (simp add: logging_sections_def eval_defs)
  obtain c sm where hd: "run_steps (compose [] args_heap failing_terminal) ([SetField ''result'' (VNum 1)] @ []) True
       (emit (Caught (DomainFailure (Error ''boom''))) sf2) = (None, c, sm)"
    and rm: "lookup_data (ctx sm) ''result'' = VNum 1"
    by (simp add: eval_defs)
  from fp[where secs = logging_sections and pre = "[]" and inner = "[]" and e = "Error ''boom''"
      and sf = sf2 and handler = "[SetField ''result'' (VNum 1)]" and post = "[]" and c = c and sm = sm,
      THEN conjunct2, THEN conjunct2] k i2 hd rm
  have "compose (map onion logging_sections @ [catching_middleware]) args_heap failing_terminal start
          = (None, run_afters logging_sections sm)"
    and "composed_result (None, run_afters logging_sections sm) = Inr (VNum 1)"
    by (simp_all add: catching_middleware_def)
  with run st show ?thesis by simp
qed

text \<open>
  Claim C4 as stated fails in its second half when a middleware further out assigns
  \<open>context.result\<close> after its \<open>proceed\<close> returned: the inner middleware catches the
  failure of the terminal function and sets \<open>result\<close> to 1, and the composed callable
  resolves to 9.
\<close>

theorem failure_propagation_counterexample:
  "fst (run_steps (compose [] args_heap failing_terminal) catching_middleware False start) = None \<and>
   lookup_data (ctx (snd (snd (run_steps (compose [] args_heap failing_terminal)
         catching_middleware False start)))) ''result'' = VNum 1 \<and>
   composed_result (compose [overwriting_middleware, catching_middleware]
                       args_heap failing_terminal start)
     = Inr (VNum 9)"
  by (simp add: catching_middleware_def overwriting_middleware_def eval_defs)

end
